theory Spec2Isabelle
  imports Complex_Main
begin

section \<open>Data model of main.py\<close>

text \<open>
  Python objects are referred to by reference. A \<open>Recurso\<close> is created only by
  \<open>App.add_recurso\<close>, which appends it to \<open>App.recursos\<close>, and a \<open>Processo\<close> only by
  \<open>App.start_simulation\<close>, which appends it to \<open>App.processos\<close>; nothing is ever removed
  from either list. A reference to an object is therefore modelled as the position of the
  object in its list. \<open>Recurso\<close> and \<open>Processo\<close> define no \<open>__eq__\<close>, \<open>__bool__\<close> or
  \<open>__len__\<close>, so \<open>in\<close> and \<open>remove\<close> compare references and every object is truthy.

  The \<open>Logger\<close> writes time-stamped lines to a Tk widget and touches no other data; it is
  outside the model.

  A Python float is modelled as a real number or one of the three special values that
  \<open>float(...)\<close> also returns (for the texts \<open>inf\<close>, \<open>-inf\<close>, \<open>nan\<close> and for a literal
  that overflows). The program only stores floats and passes them to \<open>time.sleep\<close> and
  \<open>threading.Timer\<close>; it does no arithmetic on them and never compares them.
\<close>

datatype pyfloat = Fin real | Pos_inf | Neg_inf | Nan

type_synonym pref = nat
type_synonym rref = nat

text \<open>
  The control point of a \<open>Processo\<close> thread: in the \<open>run\<close> loop outside
  \<open>solicitar_recurso\<close>; at the head of the \<open>while\<close> loop of \<open>solicitar_recurso\<close> for a
  resource (on the first call, or after having been notified); or suspended in
  \<open>recurso.condicao.wait()\<close>.
\<close>

datatype controle = Ocioso | Solicitando rref | Dormindo rref

record recurso =
  r_id :: int
  nome :: string
  dono :: "pref option"
  condicao :: "pref list"

record processo =
  p_id :: int
  delta_ts :: pyfloat
  delta_tu :: pyfloat
  recursos_posse :: "rref list"
  recurso_aguardando :: "rref option"
  started :: bool
  ctl :: controle

record config =
  c_id :: int
  c_ts :: pyfloat
  c_tu :: pyfloat

record sistema_operacional =
  intervalo :: pyfloat
  so_started :: bool

record estado =
  recursos :: "recurso list"
  processos :: "processo list"
  so_thread :: "sistema_operacional option"
  temp_process_configs :: "config list"
  timers :: "(pref \<times> rref) list"

section \<open>Formatting of integers\<close>

definition digit_char :: "nat \<Rightarrow> char" where
  "digit_char d = char_of (48 + d)"

function str_nat :: "nat \<Rightarrow> string" where
  "str_nat n = (if n < 10 then [digit_char n] else str_nat (n div 10) @ [digit_char (n mod 10)])"
  by pat_completeness auto
termination
  by (relation "measure id") auto

declare str_nat.simps [simp del]

definition str_int :: "int \<Rightarrow> string" where
  "str_int i = (if i < 0 then CHR ''-'' # str_nat (nat (- i)) else str_nat (nat i))"

section \<open>The directed graph\<close>

text \<open>
  \<open>nx.DiGraph\<close> keeps its nodes in a dictionary from node to attribute dictionary and,
  for each node, a dictionary of successors; both keep insertion order. The only attribute
  in use is \<open>type\<close>. \<open>add_node\<close> on a node already present updates its attributes in place;
  \<open>add_edge\<close> adds missing end points without attributes.
\<close>

record digraph =
  g_node :: "(string \<times> string option) list"
  g_succ :: "(string \<times> string list) list"

definition DiGraph :: digraph where
  "DiGraph = \<lparr>g_node = [], g_succ = []\<rparr>"

definition has_node :: "digraph \<Rightarrow> string \<Rightarrow> bool" where
  "has_node G n = (n \<in> set (map fst (g_node G)))"

definition add_node :: "string \<Rightarrow> string \<Rightarrow> digraph \<Rightarrow> digraph" where
  "add_node n t G =
     (if has_node G n
      then G\<lparr>g_node := map (\<lambda>(m, a). if m = n then (m, Some t) else (m, a)) (g_node G)\<rparr>
      else G\<lparr>g_node := g_node G @ [(n, Some t)], g_succ := g_succ G @ [(n, [])]\<rparr>)"

definition ensure_node :: "string \<Rightarrow> digraph \<Rightarrow> digraph" where
  "ensure_node n G =
     (if has_node G n then G
      else G\<lparr>g_node := g_node G @ [(n, None)], g_succ := g_succ G @ [(n, [])]\<rparr>)"

definition add_edge :: "string \<Rightarrow> string \<Rightarrow> digraph \<Rightarrow> digraph" where
  "add_edge u v G =
     (let G' = ensure_node v (ensure_node u G)
      in G'\<lparr>g_succ := map (\<lambda>(m, ss). if m = u \<and> v \<notin> set ss then (m, ss @ [v]) else (m, ss))
                          (g_succ G')\<rparr>)"

definition nodes :: "digraph \<Rightarrow> string list" where
  "nodes G = map fst (g_node G)"

definition successors :: "digraph \<Rightarrow> string \<Rightarrow> string list" where
  "successors G n = (case map_of (g_succ G) n of None \<Rightarrow> [] | Some ss \<Rightarrow> ss)"

section \<open>Simple cycles\<close>

text \<open>
  Modelled from the spec: \<open>nx.simple_cycles\<close> is code of the networkx library, which is
  not part of the sources. The specification asks for the enumeration of all simple cycles,
  a cycle visiting each node at most once before returning to its start; the library
  yields each such cycle once, as the list of its nodes, cycles that are rotations of one
  another counting as the same cycle. The model lists every simple cycle once, starting at
  the node of the cycle that comes first in the node order of the graph; that it lists
  exactly the simple cycles is proved below. The order of the cycles and the node a cycle
  starts with are not fixed by the library, and no statement below depends on them. The
  \<open>except\<close> branch of the detector, which yields no cycles when the library raises, has
  no counterpart: the enumeration is total.
\<close>

function cycles_from :: "(string \<Rightarrow> string list) \<Rightarrow> string \<Rightarrow> string list \<Rightarrow> string list \<Rightarrow> string
    \<Rightarrow> string list list" where
  "cycles_from suc s avail path v =
     (if s \<in> set (suc v) then [path] else []) @
     concat (map (\<lambda>w. cycles_from suc s (remove1 w avail) (path @ [w]) w)
                 (filter (\<lambda>w. w \<in> set (suc v)) avail))"
  by pat_completeness auto
termination
proof (relation "measure (\<lambda>(suc, s, avail, path, v). length avail)")
  show "wf (measure (\<lambda>(suc, s, avail, path, v). length avail))"
    by simp
next
  fix suc :: "string \<Rightarrow> string list" and s :: string and avail path :: "string list"
    and v w :: string
  assume "w \<in> set (filter (\<lambda>w. w \<in> set (suc v)) avail)"
  then have "w \<in> set avail" by simp
  then have "length (remove1 w avail) < length avail"
    by (simp add: length_remove1) (cases avail; simp)
  then show "((suc, s, remove1 w avail, path @ [w], w), (suc, s, avail, path, v))
      \<in> measure (\<lambda>(suc, s, avail, path, v). length avail)"
    by simp
qed

declare cycles_from.simps [simp del]

fun cycles_rooted :: "(string \<Rightarrow> string list) \<Rightarrow> string list \<Rightarrow> string list list" where
  "cycles_rooted suc [] = []"
| "cycles_rooted suc (s # rest) = cycles_from suc s rest [s] s @ cycles_rooted suc rest"

definition simple_cycles :: "digraph \<Rightarrow> string list list" where
  "simple_cycles G = cycles_rooted (successors G) (nodes G)"

text \<open>
  What a simple cycle is: a non-empty list of distinct nodes in which every node is
  followed by one of its successors and the first node is a successor of the last.
\<close>

fun walk :: "(string \<Rightarrow> string list) \<Rightarrow> string list \<Rightarrow> bool" where
  "walk suc [] = True"
| "walk suc [x] = True"
| "walk suc (x # y # zs) = (y \<in> set (suc x) \<and> walk suc (y # zs))"

definition is_cycle :: "(string \<Rightarrow> string list) \<Rightarrow> string list \<Rightarrow> bool" where
  "is_cycle suc c \<longleftrightarrow> c \<noteq> [] \<and> distinct c \<and> walk suc c \<and> hd c \<in> set (suc (last c))"

section \<open>The deadlock detector\<close>

record deadlock_info =
  graph :: digraph
  cycles :: "string list list"
  in_deadlock :: "string list"

definition nome_processo :: "processo \<Rightarrow> string" where
  "nome_processo p = CHR ''P'' # str_int (p_id p)"

definition nome_recurso :: "recurso \<Rightarrow> string" where
  "nome_recurso r = CHR ''R'' # str_int (r_id r)"

definition startswith_P :: "string \<Rightarrow> bool" where
  "startswith_P n = (case n of [] \<Rightarrow> False | c # _ \<Rightarrow> c = CHR ''P'')"

text \<open>The four loops of \<open>detectar_deadlock\<close> that build the graph under the lock.\<close>

definition add_process_nodes :: "estado \<Rightarrow> digraph \<Rightarrow> digraph" where
  "add_process_nodes s G = fold (\<lambda>p. add_node (nome_processo p) ''processo'') (processos s) G"

definition add_resource_nodes :: "estado \<Rightarrow> digraph \<Rightarrow> digraph" where
  "add_resource_nodes s G = fold (\<lambda>r. add_node (nome_recurso r) ''recurso'') (recursos s) G"

definition add_owner_edges :: "estado \<Rightarrow> digraph \<Rightarrow> digraph" where
  "add_owner_edges s G =
     fold (\<lambda>r G. case dono r of None \<Rightarrow> G
                 | Some d \<Rightarrow> add_edge (nome_recurso r) (nome_processo (processos s ! d)) G)
          (recursos s) G"

definition add_wait_edges :: "estado \<Rightarrow> digraph \<Rightarrow> digraph" where
  "add_wait_edges s G =
     fold (\<lambda>p G. case recurso_aguardando p of None \<Rightarrow> G
                 | Some w \<Rightarrow> add_edge (nome_processo p) (nome_recurso (recursos s ! w)) G)
          (processos s) G"

definition build_graph :: "estado \<Rightarrow> digraph" where
  "build_graph s =
     add_wait_edges s (add_owner_edges s (add_resource_nodes s (add_process_nodes s DiGraph)))"

text \<open>
  \<open>in_deadlock\<close> is a Python set turned into a list, whose order is not specified; the
  model keeps the order of first insertion, and statements about it speak of its set.
\<close>

definition collect_deadlocked :: "string list list \<Rightarrow> string list" where
  "collect_deadlocked cs =
     fold (\<lambda>cycle acc. fold (\<lambda>node acc. if startswith_P node \<and> node \<notin> set acc
                                        then acc @ [node] else acc) cycle acc) cs []"

definition detectar_deadlock :: "estado \<Rightarrow> deadlock_info" where
  "detectar_deadlock s =
     (let G = build_graph s; cs = simple_cycles G
      in \<lparr>graph = G, cycles = cs, in_deadlock = collect_deadlocked cs\<rparr>)"

section \<open>Two scenarios\<close>

definition mk_recurso :: "int \<Rightarrow> string \<Rightarrow> pref option \<Rightarrow> recurso" where
  "mk_recurso i n d = \<lparr>r_id = i, nome = n, dono = d, condicao = []\<rparr>"

definition mk_processo :: "int \<Rightarrow> rref list \<Rightarrow> rref option \<Rightarrow> controle \<Rightarrow> processo" where
  "mk_processo i held w c =
     \<lparr>p_id = i, delta_ts = Fin (1 / 2), delta_tu = Fin 50, recursos_posse = held,
      recurso_aguardando = w, started = True, ctl = c\<rparr>"

text \<open>P1 owns A and waits on B; P2 owns B and waits on A.\<close>

definition cenario_deadlock :: estado where
  "cenario_deadlock =
     \<lparr>recursos = [mk_recurso 1 ''A'' (Some 0) \<lparr>condicao := [1]\<rparr>,
                  mk_recurso 2 ''B'' (Some 1) \<lparr>condicao := [0]\<rparr>],
      processos = [mk_processo 1 [0] (Some 1) (Dormindo 1),
                   mk_processo 2 [1] (Some 0) (Dormindo 0)],
      so_thread = Some \<lparr>intervalo = Fin 1, so_started = True\<rparr>,
      temp_process_configs = [\<lparr>c_id = 1, c_ts = Fin (1 / 2), c_tu = Fin 50\<rparr>,
                              \<lparr>c_id = 2, c_ts = Fin (1 / 2), c_tu = Fin 50\<rparr>],
      timers = [(0, 0), (1, 1)]\<rparr>"

text \<open>P1 owns A and waits on nothing; P2 owns B and waits on A.\<close>

definition cenario_bloqueio :: estado where
  "cenario_bloqueio =
     \<lparr>recursos = [mk_recurso 1 ''A'' (Some 0) \<lparr>condicao := [1]\<rparr>,
                  mk_recurso 2 ''B'' (Some 1)],
      processos = [mk_processo 1 [0] None Ocioso,
                   mk_processo 2 [1] (Some 0) (Dormindo 0)],
      so_thread = Some \<lparr>intervalo = Fin 1, so_started = True\<rparr>,
      temp_process_configs = [\<lparr>c_id = 1, c_ts = Fin (1 / 2), c_tu = Fin 50\<rparr>,
                              \<lparr>c_id = 2, c_ts = Fin (1 / 2), c_tu = Fin 50\<rparr>],
      timers = [(0, 0), (1, 1)]\<rparr>"

section \<open>Configuration and start of the simulation\<close>

text \<open>
  The dialogs of \<open>messagebox\<close> are the only way in which the application reports a
  rejected configuration; \<open>showwarning\<close> and \<open>showerror\<close> are kept apart, and the texts
  of the dialogs are named by constructors. An entry field read with \<open>float(...)\<close> is
  given as the float that the text parses to, \<open>None\<close> standing for the \<open>ValueError\<close> of a
  text that \<open>float\<close> does not accept. \<open>Thread.start\<close> raises \<open>RuntimeError\<close> on a thread
  that has been started before.
\<close>

datatype mensagem =
  Maximo_recursos_atingido | Maximo_processos_atingido
  | Valores_numericos_necessarios | Configure_recursos_e_processos

datatype saida = Retorno | Showwarning mensagem | Showerror mensagem | RuntimeError

definition MAX_RECURSOS :: nat where
  "MAX_RECURSOS = 10"

definition MAX_PROCESSOS :: nat where
  "MAX_PROCESSOS = 10"

definition App :: estado where
  "App = \<lparr>recursos = [], processos = [], so_thread = None, temp_process_configs = [],
          timers = []\<rparr>"

definition Recurso :: "int \<Rightarrow> string \<Rightarrow> recurso" where
  "Recurso i n = \<lparr>r_id = i, nome = n, dono = None, condicao = []\<rparr>"

definition Processo :: "int \<Rightarrow> pyfloat \<Rightarrow> pyfloat \<Rightarrow> processo" where
  "Processo i ts tu =
     \<lparr>p_id = i, delta_ts = ts, delta_tu = tu, recursos_posse = [],
      recurso_aguardando = None, started = False, ctl = Ocioso\<rparr>"

definition add_recurso :: "string \<Rightarrow> estado \<Rightarrow> saida \<times> estado" where
  "add_recurso entry_res_nome s =
     (if length (recursos s) \<ge> MAX_RECURSOS then (Showwarning Maximo_recursos_atingido, s)
      else if entry_res_nome = [] then (Retorno, s)
      else (Retorno,
            s\<lparr>recursos := recursos s @ [Recurso (int (length (recursos s)) + 1) entry_res_nome]\<rparr>))"

definition add_processo_config ::
    "pyfloat option \<Rightarrow> pyfloat option \<Rightarrow> estado \<Rightarrow> saida \<times> estado" where
  "add_processo_config entry_ts entry_tu s =
     (if length (temp_process_configs s) \<ge> MAX_PROCESSOS
      then (Showwarning Maximo_processos_atingido, s)
      else case entry_ts of
        None \<Rightarrow> (Showerror Valores_numericos_necessarios, s)
      | Some ts \<Rightarrow>
          (case entry_tu of
             None \<Rightarrow> (Showerror Valores_numericos_necessarios, s)
           | Some tu \<Rightarrow>
               (Retorno,
                s\<lparr>temp_process_configs := temp_process_configs s @
                     [\<lparr>c_id = int (length (temp_process_configs s)) + 1, c_ts = ts, c_tu = tu\<rparr>]\<rparr>)))"

text \<open>
  The loop \<open>for p in self.processos: p.start()\<close>: it stops at the first thread that has
  already been started, the threads before it staying started.
\<close>

fun start_threads :: "pref list \<Rightarrow> processo list \<Rightarrow> bool \<times> processo list" where
  "start_threads [] ps = (True, ps)"
| "start_threads (i # is) ps =
     (if started (ps ! i) then (False, ps)
      else start_threads is (ps[i := (ps ! i)\<lparr>started := True\<rparr>]))"

definition start_simulation :: "pyfloat option \<Rightarrow> estado \<Rightarrow> saida \<times> estado" where
  "start_simulation entry_so_time s =
     (if recursos s = [] \<or> temp_process_configs s = []
      then (Showerror Configure_recursos_e_processos, s)
      else case entry_so_time of
        None \<Rightarrow> (Retorno, s)
      | Some dt \<Rightarrow>
          (let ps = processos s @
                      map (\<lambda>c. Processo (c_id c) (c_ts c) (c_tu c)) (temp_process_configs s);
               (ok, ps') = start_threads [0..<length ps] ps
           in if ok
              then (Retorno,
                    s\<lparr>processos := ps', so_thread := Some \<lparr>intervalo = dt, so_started = True\<rparr>\<rparr>)
              else (RuntimeError,
                    s\<lparr>processos := ps', so_thread := Some \<lparr>intervalo = dt, so_started = False\<rparr>\<rparr>)))"

section \<open>The threads of the processes\<close>

text \<open>
  All accesses to the shared data happen while \<open>global_lock\<close> is held, so every function
  below is one atomic step. The passing of time (\<open>time.sleep\<close>, the delay of a
  \<open>threading.Timer\<close>) is not modelled: a step may happen at any moment at which its thread
  is able to take it.

  One iteration of the loop of \<open>Processo.run\<close>, after the sleep: the list of resources not
  held is computed, and if it is not empty the thread goes on to call \<open>solicitar_recurso\<close>
  on the element that \<open>random.choice\<close> picks; \<open>k\<close> is the random draw.
\<close>

definition disponiveis_para_pedir :: "pref \<Rightarrow> estado \<Rightarrow> rref list" where
  "disponiveis_para_pedir p s =
     filter (\<lambda>r. r \<notin> set (recursos_posse (processos s ! p))) [0..<length (recursos s)]"

definition run_iteration :: "pref \<Rightarrow> nat \<Rightarrow> estado \<Rightarrow> estado" where
  "run_iteration p k s =
     (let d = disponiveis_para_pedir p s
      in if d = [] then s
         else s\<lparr>processos :=
                  (processos s)[p := (processos s ! p)\<lparr>ctl := Solicitando (d ! (k mod length d))\<rparr>]\<rparr>)"

text \<open>
  \<open>solicitar_recurso\<close> from the head of its \<open>while\<close> loop, with the lock held, up to the
  point where the thread gives the lock up: either the resource has an owner, and the
  thread records what it waits for and suspends itself on the condition of the resource;
  or the resource is free, and the thread takes it and starts the timer of the release.
  A thread that has been notified resumes at the head of the loop, that is, takes this step
  again.
\<close>

definition solicitar_recurso :: "pref \<Rightarrow> rref \<Rightarrow> estado \<Rightarrow> estado" where
  "solicitar_recurso p r s =
     (let rec = recursos s ! r; self = processos s ! p
      in if dono rec \<noteq> None
         then s\<lparr>processos := (processos s)[p := self\<lparr>recurso_aguardando := Some r,
                                                    ctl := Dormindo r\<rparr>],
                recursos := (recursos s)[r := rec\<lparr>condicao := condicao rec @ [p]\<rparr>]\<rparr>
         else s\<lparr>recursos := (recursos s)[r := rec\<lparr>dono := Some p\<rparr>],
                processos := (processos s)[p := self\<lparr>recurso_aguardando := None,
                                                    recursos_posse := recursos_posse self @ [r],
                                                    ctl := Ocioso\<rparr>],
                timers := timers s @ [(p, r)]\<rparr>)"

text \<open>
  \<open>notify_all\<close> on the condition of resource \<open>r\<close> with waiters \<open>ws\<close>: every waiter becomes
  able to run again, at the head of the loop of \<open>solicitar_recurso\<close>.
\<close>

definition notify_all :: "rref \<Rightarrow> pref list \<Rightarrow> processo list \<Rightarrow> processo list" where
  "notify_all r ws ps = fold (\<lambda>q ps. ps[q := (ps ! q)\<lparr>ctl := Solicitando r\<rparr>]) ws ps"

definition liberar_recurso_agendado :: "pref \<Rightarrow> rref \<Rightarrow> estado \<Rightarrow> estado" where
  "liberar_recurso_agendado p r s =
     (let rec = recursos s ! r; self = processos s ! p
      in if r \<in> set (recursos_posse self)
         then s\<lparr>recursos := (recursos s)[r := rec\<lparr>dono := None, condicao := []\<rparr>],
                processos := notify_all r (condicao rec)
                    ((processos s)[p := self\<lparr>recursos_posse := remove1 r (recursos_posse self)\<rparr>])\<rparr>
         else s)"

section \<open>Reachable states\<close>

text \<open>
  The states of the program: the application starts empty; the user adds resources and
  process configurations and starts the simulation; a started thread that is in its \<open>run\<close>
  loop takes an iteration; a started thread at the head of the loop of
  \<open>solicitar_recurso\<close> takes that step; a timer that has been started fires.
\<close>

inductive reachable :: "estado \<Rightarrow> bool" where
  reach_App: "reachable App"
| reach_add_recurso: "reachable s \<Longrightarrow> reachable (snd (add_recurso n s))"
| reach_add_processo_config: "reachable s \<Longrightarrow> reachable (snd (add_processo_config ts tu s))"
| reach_start_simulation: "reachable s \<Longrightarrow> reachable (snd (start_simulation dt s))"
| reach_run: "reachable s \<Longrightarrow> p < length (processos s) \<Longrightarrow> started (processos s ! p)
    \<Longrightarrow> ctl (processos s ! p) = Ocioso \<Longrightarrow> reachable (run_iteration p k s)"
| reach_solicitar: "reachable s \<Longrightarrow> p < length (processos s) \<Longrightarrow> started (processos s ! p)
    \<Longrightarrow> ctl (processos s ! p) = Solicitando r \<Longrightarrow> reachable (solicitar_recurso p r s)"
| reach_liberar: "reachable s \<Longrightarrow> (p, r) \<in> set (timers s)
    \<Longrightarrow> reachable (liberar_recurso_agendado p r (s\<lparr>timers := remove1 (p, r) (timers s)\<rparr>))"

text \<open>
  Ownership is consistent in both directions: the owner of a resource holds it, whoever
  holds a resource is its owner, and no resource occurs twice in a list of held resources.
\<close>

definition consistent :: "estado \<Rightarrow> bool" where
  "consistent s \<longleftrightarrow>
     (\<forall>r < length (recursos s). \<forall>p. dono (recursos s ! r) = Some p \<longrightarrow>
        p < length (processos s) \<and> r \<in> set (recursos_posse (processos s ! p))) \<and>
     (\<forall>p < length (processos s). \<forall>r \<in> set (recursos_posse (processos s ! p)).
        r < length (recursos s) \<and> dono (recursos s ! r) = Some p) \<and>
     (\<forall>p < length (processos s). distinct (recursos_posse (processos s ! p)))"

text \<open>No process waits for, or is about to request, a resource that it holds.\<close>

definition no_self_wait :: "estado \<Rightarrow> bool" where
  "no_self_wait s \<longleftrightarrow>
     (\<forall>p < length (processos s). \<forall>r. recurso_aguardando (processos s ! p) = Some r \<longrightarrow>
        r \<notin> set (recursos_posse (processos s ! p))) \<and>
     (\<forall>p < length (processos s). \<forall>r. ctl (processos s ! p) = Solicitando r \<longrightarrow>
        r < length (recursos s) \<and> r \<notin> set (recursos_posse (processos s ! p)))"

definition timers_ok :: "estado \<Rightarrow> bool" where
  "timers_ok s \<longleftrightarrow> (\<forall>(p, r) \<in> set (timers s). p < length (processos s))"

text \<open>The invariant of the reachable states.\<close>

definition invariant :: "estado \<Rightarrow> bool" where
  "invariant s \<longleftrightarrow> consistent s \<and> no_self_wait s \<and> timers_ok s"

text \<open>
  The threads suspended on the condition of a resource are exactly the threads whose
  control point is the \<open>wait\<close> on that resource, and what a process waits for is a
  resource of the system.
\<close>

definition waiters_ok :: "estado \<Rightarrow> bool" where
  "waiters_ok s \<longleftrightarrow>
     (\<forall>r < length (recursos s). \<forall>q \<in> set (condicao (recursos s ! r)).
        q < length (processos s) \<and> ctl (processos s ! q) = Dormindo r) \<and>
     (\<forall>q < length (processos s). \<forall>r. ctl (processos s ! q) = Dormindo r \<longrightarrow>
        r < length (recursos s) \<and> q \<in> set (condicao (recursos s ! r))) \<and>
     (\<forall>q < length (processos s). \<forall>r. recurso_aguardando (processos s ! q) = Some r \<longrightarrow>
        r < length (recursos s))"

text \<open>The configuration lists stay within the two limits.\<close>

definition config_bounded :: "estado \<Rightarrow> bool" where
  "config_bounded s \<longleftrightarrow>
     length (recursos s) \<le> MAX_RECURSOS \<and> length (temp_process_configs s) \<le> MAX_PROCESSOS"

text \<open>
  What the detector reads of a state: the identifiers of the resources and of the
  processes, the owner of every resource and what every process waits for.
\<close>

definition allocation :: "estado \<Rightarrow> int list \<times> pref option list \<times> int list \<times> rref option list" where
  "allocation s =
     (map r_id (recursos s), map dono (recursos s),
      map p_id (processos s), map recurso_aguardando (processos s))"

definition refs_ok :: "estado \<Rightarrow> bool" where
  "refs_ok s \<longleftrightarrow>
     (\<forall>r \<in> set (recursos s). \<forall>d. dono r = Some d \<longrightarrow> d < length (processos s)) \<and>
     (\<forall>p \<in> set (processos s). \<forall>w. recurso_aguardando p = Some w \<longrightarrow> w < length (recursos s))"

text \<open>
  A run of the program: resources A and B and two processes are configured and the
  simulation is started.
\<close>

definition exemplo_inicio :: estado where
  "exemplo_inicio =
     snd (start_simulation (Some (Fin 1))
       (snd (add_processo_config (Some (Fin (1 / 2))) (Some (Fin 50))
         (snd (add_processo_config (Some (Fin (1 / 2))) (Some (Fin 50))
           (snd (add_recurso ''B'' (snd (add_recurso ''A'' App)))))))))"

text \<open>P1 requests and takes A, P2 requests and takes B.\<close>

definition exemplo_posse :: estado where
  "exemplo_posse =
     solicitar_recurso 1 1 (run_iteration 1 1
       (solicitar_recurso 0 0 (run_iteration 0 0 exemplo_inicio)))"

text \<open>
  Two configurations: ten resources and ten process configurations; and one resource with
  two process configurations, one with interval 0 and one with duration -1.
\<close>

definition configuracao_cheia :: estado where
  "configuracao_cheia =
     fold (\<lambda>n s. snd (add_processo_config (Some (Fin (1 / 2))) (Some (Fin 50)) s)) [0..<10]
       (fold (\<lambda>n s. snd (add_recurso ''R'' s)) [0..<10] App)"

definition config_nao_positiva :: estado where
  "config_nao_positiva =
     snd (add_processo_config (Some (Fin (1 / 2))) (Some (Fin (- 1)))
       (snd (add_processo_config (Some (Fin 0)) (Some (Fin 50)) (snd (add_recurso ''A'' App)))))"

section \<open>The enumeration of the simple cycles\<close>

lemma walk_Cons: "walk suc (x # ys) \<longleftrightarrow> (ys = [] \<or> (hd ys \<in> set (suc x) \<and> walk suc ys))"
  by (cases ys) auto

lemma walk_append:
  "walk suc (xs @ ys) \<longleftrightarrow>
     walk suc xs \<and> walk suc ys \<and> (xs \<noteq> [] \<and> ys \<noteq> [] \<longrightarrow> hd ys \<in> set (suc (last xs)))"
proof (induction xs rule: walk.induct)
  case (1 suc)
  show ?case by simp
next
  case (2 suc x)
  show ?case by (cases ys) (auto simp: walk_Cons)
next
  case (3 suc x y zs)
  then show ?case by auto
qed

lemma cycles_from_iff:
  assumes "distinct avail"
  shows "c \<in> set (cycles_from suc s avail path v) \<longleftrightarrow>
     (\<exists>ext. c = path @ ext \<and> distinct ext \<and> set ext \<subseteq> set avail \<and> walk suc (v # ext)
        \<and> s \<in> set (suc (last (v # ext))))"
  using assms
proof (induction suc s avail path v arbitrary: c rule: cycles_from.induct)
  case (1 suc s avail path v)
  have IH: "c \<in> set (cycles_from suc s (remove1 w avail) (path @ [w]) w) \<longleftrightarrow>
     (\<exists>ext. c = (path @ [w]) @ ext \<and> distinct ext \<and> set ext \<subseteq> set (remove1 w avail)
        \<and> walk suc (w # ext) \<and> s \<in> set (suc (last (w # ext))))"
    if "w \<in> set avail" "w \<in> set (suc v)" for w c
    using "1.IH" [of w c] that "1.prems" by simp
  have step: "c \<in> set (cycles_from suc s avail path v) \<longleftrightarrow>
      (s \<in> set (suc v) \<and> c = path) \<or>
      (\<exists>w \<in> set avail. w \<in> set (suc v) \<and>
         c \<in> set (cycles_from suc s (remove1 w avail) (path @ [w]) w))"
    by (subst cycles_from.simps) auto
  show ?case
  proof
    assume "c \<in> set (cycles_from suc s avail path v)"
    with step consider "s \<in> set (suc v)" "c = path"
      | w where "w \<in> set avail" "w \<in> set (suc v)"
          "c \<in> set (cycles_from suc s (remove1 w avail) (path @ [w]) w)"
      by blast
    then show "\<exists>ext. c = path @ ext \<and> distinct ext \<and> set ext \<subseteq> set avail \<and> walk suc (v # ext)
        \<and> s \<in> set (suc (last (v # ext)))"
    proof cases
      case 1
      then show ?thesis by (intro exI [of _ "[]"]) simp
    next
      case 2
      from IH [OF 2(1,2)] 2(3) obtain ext where e: "c = (path @ [w]) @ ext" "distinct ext"
        "set ext \<subseteq> set (remove1 w avail)" "walk suc (w # ext)"
        "s \<in> set (suc (last (w # ext)))" by blast
      from e(3) "1.prems" have "w \<notin> set ext" "set ext \<subseteq> set avail" by auto
      with e 2 show ?thesis by (intro exI [of _ "w # ext"]) auto
    qed
  next
    assume "\<exists>ext. c = path @ ext \<and> distinct ext \<and> set ext \<subseteq> set avail \<and> walk suc (v # ext)
        \<and> s \<in> set (suc (last (v # ext)))"
    then obtain ext where e: "c = path @ ext" "distinct ext" "set ext \<subseteq> set avail"
      "walk suc (v # ext)" "s \<in> set (suc (last (v # ext)))" by blast
    show "c \<in> set (cycles_from suc s avail path v)"
    proof (cases ext)
      case Nil
      with e step show ?thesis by simp
    next
      case (Cons w ext')
      with e have w: "w \<in> set avail" "w \<in> set (suc v)" by auto
      from e Cons "1.prems" have "set ext' \<subseteq> set (remove1 w avail)" by auto
      with e Cons have "\<exists>x. c = (path @ [w]) @ x \<and> distinct x \<and> set x \<subseteq> set (remove1 w avail)
        \<and> walk suc (w # x) \<and> s \<in> set (suc (last (w # x)))"
        by (intro exI [of _ ext']) auto
      with IH [OF w] have "c \<in> set (cycles_from suc s (remove1 w avail) (path @ [w]) w)" by blast
      with w step show ?thesis by blast
    qed
  qed
qed

lemma cycles_rooted_iff:
  assumes "distinct ns"
  shows "c \<in> set (cycles_rooted suc ns) \<longleftrightarrow>
     (\<exists>pre s rest ext. ns = pre @ s # rest \<and> c = s # ext \<and> distinct ext \<and>
        set ext \<subseteq> set rest \<and> walk suc (s # ext) \<and> s \<in> set (suc (last (s # ext))))"
  using assms
proof (induction ns)
  case Nil
  show ?case by simp
next
  case (Cons x ns)
  then have d: "distinct ns" and x: "x \<notin> set ns" by simp_all
  note IH = Cons.IH [OF d]
  show ?case
  proof
    assume "c \<in> set (cycles_rooted suc (x # ns))"
    then consider "c \<in> set (cycles_from suc x ns [x] x)" | "c \<in> set (cycles_rooted suc ns)"
      by auto
    then show "\<exists>pre s rest ext. x # ns = pre @ s # rest \<and> c = s # ext \<and> distinct ext \<and>
        set ext \<subseteq> set rest \<and> walk suc (s # ext) \<and> s \<in> set (suc (last (s # ext)))"
    proof cases
      case 1
      with cycles_from_iff [OF d, of c suc x "[x]" x] obtain ext where
        "c = [x] @ ext" "distinct ext" "set ext \<subseteq> set ns" "walk suc (x # ext)"
        "x \<in> set (suc (last (x # ext)))" by blast
      then show ?thesis by (intro exI [of _ "[]"] exI [of _ x] exI [of _ ns] exI [of _ ext]) simp
    next
      case 2
      with IH obtain pre s rest ext where "ns = pre @ s # rest" "c = s # ext" "distinct ext"
        "set ext \<subseteq> set rest" "walk suc (s # ext)" "s \<in> set (suc (last (s # ext)))" by blast
      then show ?thesis
        by (intro exI [of _ "x # pre"] exI [of _ s] exI [of _ rest] exI [of _ ext]) simp
    qed
  next
    assume "\<exists>pre s rest ext. x # ns = pre @ s # rest \<and> c = s # ext \<and> distinct ext \<and>
        set ext \<subseteq> set rest \<and> walk suc (s # ext) \<and> s \<in> set (suc (last (s # ext)))"
    then obtain pre s rest ext where e: "x # ns = pre @ s # rest" "c = s # ext" "distinct ext"
      "set ext \<subseteq> set rest" "walk suc (s # ext)" "s \<in> set (suc (last (s # ext)))" by blast
    show "c \<in> set (cycles_rooted suc (x # ns))"
    proof (cases pre)
      case Nil
      with e have "s = x" "rest = ns" by simp_all
      with e have "\<exists>ext. c = [x] @ ext \<and> distinct ext \<and> set ext \<subseteq> set ns \<and> walk suc (x # ext)
        \<and> x \<in> set (suc (last (x # ext)))" by (intro exI [of _ ext]) simp
      with cycles_from_iff [OF d, of c suc x "[x]" x]
      have "c \<in> set (cycles_from suc x ns [x] x)" by blast
      then show ?thesis by simp
    next
      case (Cons y pre')
      with e have "ns = pre' @ s # rest" by simp
      with e have "\<exists>pre s rest ext. ns = pre @ s # rest \<and> c = s # ext \<and> distinct ext \<and>
        set ext \<subseteq> set rest \<and> walk suc (s # ext) \<and> s \<in> set (suc (last (s # ext)))" by blast
      with IH have "c \<in> set (cycles_rooted suc ns)" by blast
      then show ?thesis by simp
    qed
  qed
qed

lemma cycles_rooted_sound:
  assumes "distinct ns" and "c \<in> set (cycles_rooted suc ns)"
  shows "is_cycle suc c \<and> set c \<subseteq> set ns"
proof -
  from cycles_rooted_iff [OF assms(1), of c suc] assms(2)
  obtain pre s rest ext where e: "ns = pre @ s # rest" "c = s # ext" "distinct ext"
    "set ext \<subseteq> set rest" "walk suc (s # ext)" "s \<in> set (suc (last (s # ext)))" by blast
  from e(1) assms(1) have "s \<notin> set rest" by simp
  with e show ?thesis by (auto simp: is_cycle_def)
qed

lemma is_cycle_rotate1:
  assumes "is_cycle suc c" shows "is_cycle suc (rotate1 c)"
proof (cases c)
  case Nil
  with assms show ?thesis by (simp add: is_cycle_def)
next
  case (Cons x xs)
  show ?thesis
  proof (cases xs)
    case Nil
    with Cons assms show ?thesis by simp
  next
    case (Cons y ys)
    with \<open>c = x # xs\<close> assms have a: "distinct (x # xs)" "y \<in> set (suc x)" "walk suc xs"
      "x \<in> set (suc (last xs))" by (auto simp: is_cycle_def)
    from a(3,4) Cons have "walk suc (xs @ [x])" by (subst walk_append) simp
    with a Cons \<open>c = x # xs\<close> show ?thesis by (auto simp: is_cycle_def)
  qed
qed

lemma is_cycle_rotate: "is_cycle suc c \<Longrightarrow> is_cycle suc (rotate n c)"
  by (induction n) (auto simp: is_cycle_rotate1)

lemma rotate_to_front:
  assumes "x \<in> set c"
  shows "\<exists>n ext. rotate n c = x # ext"
proof -
  from assms obtain a b where "c = a @ x # b" by (auto simp: in_set_conv_decomp)
  then have "rotate (length a) c = x # b @ a" by (simp add: rotate_append)
  then show ?thesis by blast
qed

lemma cycles_rooted_complete:
  assumes "distinct ns" and "is_cycle suc c" and "set c \<subseteq> set ns"
  shows "\<exists>n. rotate n c \<in> set (cycles_rooted suc ns)"
  using assms
proof (induction ns)
  case Nil
  then show ?case by (simp add: is_cycle_def)
next
  case (Cons x ns)
  then have d: "distinct ns" by simp
  show ?case
  proof (cases "x \<in> set c")
    case False
    with Cons.prems have "set c \<subseteq> set ns" by auto
    from Cons.IH [OF d Cons.prems(2) this] show ?thesis by auto
  next
    case True
    from rotate_to_front [OF True] obtain n ext where r: "rotate n c = x # ext" by blast
    from is_cycle_rotate [OF Cons.prems(2), of n] r have cyc: "is_cycle suc (x # ext)" by simp
    have "set (x # ext) = set c" using r by (metis set_rotate)
    with Cons.prems(3) cyc have "set ext \<subseteq> set ns" by (auto simp: is_cycle_def)
    with cyc have "\<exists>e. x # ext = [x] @ e \<and> distinct e \<and> set e \<subseteq> set ns \<and> walk suc (x # e)
        \<and> x \<in> set (suc (last (x # e)))"
      by (intro exI [of _ ext]) (auto simp: is_cycle_def)
    with cycles_from_iff [OF d, of "x # ext" suc x "[x]" x]
    have "x # ext \<in> set (cycles_from suc x ns [x] x)" by blast
    with r have "rotate n c \<in> set (cycles_rooted suc (x # ns))" by simp
    then show ?thesis by blast
  qed
qed

lemma distinct_concat_map:
  assumes "distinct ws"
    and "\<And>w. w \<in> set ws \<Longrightarrow> distinct (f w)"
    and "\<And>w w'. w \<in> set ws \<Longrightarrow> w' \<in> set ws \<Longrightarrow> w \<noteq> w' \<Longrightarrow> set (f w) \<inter> set (f w') = {}"
  shows "distinct (concat (map f ws))"
  using assms
proof (induction ws)
  case Nil
  show ?case by simp
next
  case (Cons w ws)
  have "distinct (concat (map f ws))"
    using Cons.prems by (intro Cons.IH) auto
  moreover have "distinct (f w)" using Cons.prems(2) by simp
  moreover have "set (f w) \<inter> set (f w') = {}" if "w' \<in> set ws" for w'
    using Cons.prems(1) Cons.prems(3) [of w w'] that by auto
  ultimately show ?case by auto
qed

lemma distinct_cycles_from:
  assumes "distinct avail"
  shows "distinct (cycles_from suc s avail path v)"
  using assms
proof (induction suc s avail path v rule: cycles_from.induct)
  case (1 suc s avail path v)
  let ?ws = "filter (\<lambda>w. w \<in> set (suc v)) avail"
  let ?f = "\<lambda>w. cycles_from suc s (remove1 w avail) (path @ [w]) w"
  have form: "\<exists>ext. c = path @ w # ext" if "w \<in> set ?ws" "c \<in> set (?f w)" for w c
  proof -
    from "1.prems" have "distinct (remove1 w avail)" by simp
    from cycles_from_iff [OF this, of c suc s "path @ [w]" w] that(2)
    show ?thesis by auto
  qed
  have "distinct (concat (map ?f ?ws))"
  proof (rule distinct_concat_map)
    show "distinct ?ws" using "1.prems" by simp
  next
    fix w assume "w \<in> set ?ws"
    then show "distinct (?f w)" using "1.IH" [of w] "1.prems" by simp
  next
    fix w w' assume w: "w \<in> set ?ws" "w' \<in> set ?ws" "w \<noteq> w'"
    show "set (?f w) \<inter> set (?f w') = {}"
    proof (rule ccontr)
      assume "set (?f w) \<inter> set (?f w') \<noteq> {}"
      then obtain c where "c \<in> set (?f w)" "c \<in> set (?f w')" by blast
      with form [OF w(1)] form [OF w(2)] obtain e e' where "c = path @ w # e" "c = path @ w' # e'"
        by blast
      with w(3) show False by simp
    qed
  qed
  moreover have "path \<notin> set (concat (map ?f ?ws))"
  proof
    assume "path \<in> set (concat (map ?f ?ws))"
    then obtain w where "w \<in> set ?ws" "path \<in> set (?f w)" by auto
    from form [OF this] show False by simp
  qed
  ultimately show ?case
    by (subst cycles_from.simps) simp
qed

lemma distinct_cycles_rooted:
  assumes "distinct ns"
  shows "distinct (cycles_rooted suc ns)"
  using assms
proof (induction ns)
  case Nil
  show ?case by simp
next
  case (Cons x ns)
  then have d: "distinct ns" and x: "x \<notin> set ns" by simp_all
  have "set (cycles_from suc x ns [x] x) \<inter> set (cycles_rooted suc ns) = {}"
  proof (rule ccontr)
    assume "set (cycles_from suc x ns [x] x) \<inter> set (cycles_rooted suc ns) \<noteq> {}"
    then obtain c where c: "c \<in> set (cycles_from suc x ns [x] x)" "c \<in> set (cycles_rooted suc ns)"
      by blast
    from cycles_from_iff [OF d, of c suc x "[x]" x] c(1) have "hd c = x" by auto
    moreover from cycles_rooted_iff [OF d, of c suc] c(2) have "hd c \<in> set ns" by auto
    ultimately show False using x by simp
  qed
  with distinct_cycles_from [OF d] Cons.IH [OF d] show ?case by simp
qed

lemma before_in_distinct:
  assumes "distinct (a @ x # b)" and "a @ x # b = a' @ y # b'" and "y \<in> set b"
  shows "x \<in> set a'"
proof -
  from assms(2) obtain us where
    "(a = a' @ us \<and> us @ x # b = y # b') \<or> (a @ us = a' \<and> x # b = us @ y # b')"
    by (auto simp: append_eq_append_conv2)
  then show ?thesis
  proof
    assume h: "a = a' @ us \<and> us @ x # b = y # b'"
    show ?thesis
    proof (cases us)
      case Nil
      with h assms(1,3) show ?thesis by auto
    next
      case (Cons u us')
      with h have "y \<in> set a" by auto
      with assms(1,3) show ?thesis by auto
    qed
  next
    assume h: "a @ us = a' \<and> x # b = us @ y # b'"
    show ?thesis
    proof (cases us)
      case Nil
      with h assms(1,3) show ?thesis by auto
    next
      case (Cons u us')
      with h show ?thesis by auto
    qed
  qed
qed

lemma rotate_same_hd:
  assumes "distinct c" and "c \<noteq> []" and "hd (rotate n c) = hd c"
  shows "rotate n c = c"
proof -
  from assms(2) have l: "n mod length c < length c" "0 < length c" by simp_all
  from assms(2) have "hd (rotate n c) = c ! (n mod length c)" by (rule hd_rotate_conv_nth)
  moreover from assms(2) have "hd c = c ! 0" by (rule hd_conv_nth)
  ultimately have "c ! (n mod length c) = c ! 0" using assms(3) by simp
  with assms(1) l have "n mod length c = 0" by (simp add: nth_eq_iff_index_eq)
  then have "rotate (n mod length c) c = c" by simp
  then show ?thesis by (simp add: rotate_conv_mod [symmetric])
qed

lemma cycles_rooted_rotation_unique:
  assumes "distinct ns" and "c \<in> set (cycles_rooted suc ns)"
    and "rotate n c \<in> set (cycles_rooted suc ns)"
  shows "rotate n c = c"
proof -
  from cycles_rooted_iff [OF assms(1), of c suc] assms(2)
  obtain pre s rest ext where e: "ns = pre @ s # rest" "c = s # ext" "set ext \<subseteq> set rest"
    by blast
  from cycles_rooted_iff [OF assms(1), of "rotate n c" suc] assms(3)
  obtain pre' s' rest' ext' where e': "ns = pre' @ s' # rest'" "rotate n c = s' # ext'"
    "set ext' \<subseteq> set rest'" by blast
  from cycles_rooted_sound [OF assms(1,2)] have dc: "distinct c" "c \<noteq> []"
    by (simp_all add: is_cycle_def)
  have sets: "set (s' # ext') = set (s # ext)" using e(2) e'(2) by (metis set_rotate)
  have "s' = s"
  proof (rule ccontr)
    assume ne: "s' \<noteq> s"
    with sets have "s' \<in> set ext" "s \<in> set ext'" by auto
    with e(3) e'(3) have a: "s' \<in> set rest" and b: "s \<in> set rest'" by auto
    from assms(1) e(1) have d: "distinct (pre @ s # rest)" by simp
    from e(1) e'(1) have "pre @ s # rest = pre' @ s' # rest'" by simp
    from before_in_distinct [OF d this a] have "s \<in> set pre'" .
    with b assms(1) e'(1) show False by auto
  qed
  with e(2) e'(2) have "hd (rotate n c) = hd c" by simp
  from rotate_same_hd [OF dc this] show ?thesis .
qed

lemma nodes_add_node:
  "nodes (add_node n t G) = (if n \<in> set (nodes G) then nodes G else nodes G @ [n])"
proof -
  have "map fst (map (\<lambda>(m, a). if m = n then (m, Some t) else (m, a)) xs) = map fst xs"
    for xs :: "(string \<times> string option) list"
    by (induction xs) auto
  then show ?thesis by (simp add: add_node_def nodes_def has_node_def)
qed

lemma nodes_ensure_node:
  "nodes (ensure_node n G) = (if n \<in> set (nodes G) then nodes G else nodes G @ [n])"
  by (simp add: ensure_node_def nodes_def has_node_def)

lemma nodes_add_edge: "nodes (add_edge u v G) = nodes (ensure_node v (ensure_node u G))"
  by (simp add: add_edge_def nodes_def Let_def)

lemma distinct_nodes_add_node: "distinct (nodes G) \<Longrightarrow> distinct (nodes (add_node n t G))"
  by (simp add: nodes_add_node)

lemma distinct_nodes_add_edge: "distinct (nodes G) \<Longrightarrow> distinct (nodes (add_edge u v G))"
  by (simp add: nodes_add_edge nodes_ensure_node)

lemma distinct_nodes_fold:
  assumes "\<And>x G. distinct (nodes G) \<Longrightarrow> distinct (nodes (f x G))"
  shows "distinct (nodes G) \<Longrightarrow> distinct (nodes (fold f xs G))"
  by (induction xs arbitrary: G) (simp_all add: assms)

lemma distinct_nodes_build_graph: "distinct (nodes (build_graph s))"
proof -
  have 0: "distinct (nodes DiGraph)" by (simp add: nodes_def DiGraph_def)
  have 1: "distinct (nodes (add_process_nodes s G))" if "distinct (nodes G)" for G
    unfolding add_process_nodes_def using that
    by (rule distinct_nodes_fold [rotated]) (rule distinct_nodes_add_node)
  have 2: "distinct (nodes (add_resource_nodes s G))" if "distinct (nodes G)" for G
    unfolding add_resource_nodes_def using that
    by (rule distinct_nodes_fold [rotated]) (rule distinct_nodes_add_node)
  have 3: "distinct (nodes (add_owner_edges s G))" if "distinct (nodes G)" for G
    unfolding add_owner_edges_def using that
    by (rule distinct_nodes_fold [rotated]) (auto split: option.splits intro: distinct_nodes_add_edge)
  have 4: "distinct (nodes (add_wait_edges s G))" if "distinct (nodes G)" for G
    unfolding add_wait_edges_def using that
    by (rule distinct_nodes_fold [rotated]) (auto split: option.splits intro: distinct_nodes_add_edge)
  show ?thesis unfolding build_graph_def by (intro 4 3 2 1 0)
qed

text \<open>
  The enumeration is the list of the simple cycles: everything it lists is a simple cycle
  of the graph, every simple cycle of the graph is listed in one of its rotations, and
  nothing is listed twice, not even in two different rotations.
\<close>

lemma simple_cycles_sound:
  assumes "distinct (nodes G)" and "c \<in> set (simple_cycles G)"
  shows "is_cycle (successors G) c \<and> set c \<subseteq> set (nodes G)"
  using assms unfolding simple_cycles_def by (rule cycles_rooted_sound)

lemma simple_cycles_complete:
  assumes "distinct (nodes G)" and "is_cycle (successors G) c" and "set c \<subseteq> set (nodes G)"
  shows "\<exists>n. rotate n c \<in> set (simple_cycles G)"
  using assms unfolding simple_cycles_def by (rule cycles_rooted_complete)

lemma simple_cycles_once:
  assumes "distinct (nodes G)"
  shows "distinct (simple_cycles G)"
    and "c \<in> set (simple_cycles G) \<Longrightarrow> rotate n c \<in> set (simple_cycles G) \<Longrightarrow> rotate n c = c"
  using assms unfolding simple_cycles_def
  by (simp_all add: distinct_cycles_rooted cycles_rooted_rotation_unique)

lemma detectar_deadlock_cycles_sound:
  "c \<in> set (cycles (detectar_deadlock s)) \<Longrightarrow>
   is_cycle (successors (build_graph s)) c \<and> set c \<subseteq> set (nodes (build_graph s))"
  using simple_cycles_sound [OF distinct_nodes_build_graph, of c s]
  by (simp add: detectar_deadlock_def Let_def)

lemma detectar_deadlock_cycles_complete:
  "is_cycle (successors (build_graph s)) c \<Longrightarrow> set c \<subseteq> set (nodes (build_graph s)) \<Longrightarrow>
   \<exists>n. rotate n c \<in> set (cycles (detectar_deadlock s))"
  using simple_cycles_complete [OF distinct_nodes_build_graph, of s c]
  by (simp add: detectar_deadlock_def Let_def)

section \<open>Effects of the steps\<close>

lemma nth_upd: "j < length xs \<Longrightarrow> (xs[i := x]) ! j = (if i = j then x else xs ! j)"
  by auto

lemma notify_all_length [simp]: "length (notify_all r ws ps) = length ps"
  unfolding notify_all_def by (induction ws arbitrary: ps) auto

lemma notify_all_nth:
  "i < length ps \<Longrightarrow>
   notify_all r ws ps ! i = (if i \<in> set ws then (ps ! i)\<lparr>ctl := Solicitando r\<rparr> else ps ! i)"
  unfolding notify_all_def
  by (induction ws arbitrary: ps) (auto simp: nth_upd)

lemma start_threads_length: "start_threads js ps = (ok, ps') \<Longrightarrow> length ps' = length ps"
  by (induction js arbitrary: ps) (auto split: if_splits)

lemma start_threads_nth:
  "start_threads js ps = (ok, ps') \<Longrightarrow> i < length ps \<Longrightarrow>
   recursos_posse (ps' ! i) = recursos_posse (ps ! i) \<and>
   recurso_aguardando (ps' ! i) = recurso_aguardando (ps ! i) \<and>
   ctl (ps' ! i) = ctl (ps ! i)"
proof (induction js arbitrary: ps)
  case Nil
  then show ?case by simp
next
  case (Cons j js)
  show ?case
  proof (cases "started (ps ! j)")
    case True
    with Cons.prems show ?thesis by simp
  next
    case False
    with Cons.prems have "start_threads js (ps[j := (ps ! j)\<lparr>started := True\<rparr>]) = (ok, ps')"
      by simp
    from Cons.IH [OF this] Cons.prems(2) show ?thesis
      by (auto simp: nth_upd)
  qed
qed

lemma invariant_App: "invariant App"
  by (simp add: invariant_def consistent_def no_self_wait_def timers_ok_def App_def)

lemma add_recurso_frame:
  "processos (snd (add_recurso n s)) = processos s"
  "timers (snd (add_recurso n s)) = timers s"
  "length (recursos s) \<le> length (recursos (snd (add_recurso n s)))"
  "r < length (recursos s) \<Longrightarrow> recursos (snd (add_recurso n s)) ! r = recursos s ! r"
  "r < length (recursos (snd (add_recurso n s))) \<Longrightarrow> \<not> r < length (recursos s) \<Longrightarrow>
     dono (recursos (snd (add_recurso n s)) ! r) = None"
  by (auto simp: add_recurso_def Recurso_def nth_append split: if_splits)



lemma consistentI:
  assumes "\<And>r p. r < length (recursos s) \<Longrightarrow> dono (recursos s ! r) = Some p \<Longrightarrow>
             p < length (processos s) \<and> r \<in> set (recursos_posse (processos s ! p))"
    and "\<And>r p. p < length (processos s) \<Longrightarrow> r \<in> set (recursos_posse (processos s ! p)) \<Longrightarrow>
             r < length (recursos s) \<and> dono (recursos s ! r) = Some p"
    and "\<And>p. p < length (processos s) \<Longrightarrow> distinct (recursos_posse (processos s ! p))"
  shows "consistent s"
  unfolding consistent_def using assms by blast

lemma consistent_owner:
  "consistent s \<Longrightarrow> r < length (recursos s) \<Longrightarrow> dono (recursos s ! r) = Some p \<Longrightarrow>
   p < length (processos s) \<and> r \<in> set (recursos_posse (processos s ! p))"
  unfolding consistent_def by blast

lemma consistent_held:
  "consistent s \<Longrightarrow> p < length (processos s) \<Longrightarrow> r \<in> set (recursos_posse (processos s ! p)) \<Longrightarrow>
   r < length (recursos s) \<and> dono (recursos s ! r) = Some p"
  unfolding consistent_def by blast

lemma consistent_distinct:
  "consistent s \<Longrightarrow> p < length (processos s) \<Longrightarrow> distinct (recursos_posse (processos s ! p))"
  unfolding consistent_def by blast

lemma consistent_add_recurso:
  assumes "consistent s" shows "consistent (snd (add_recurso n s))"
proof (rule consistentI)
  let ?s = "snd (add_recurso n s)"
  fix r p assume r: "r < length (recursos ?s)" and d: "dono (recursos ?s ! r) = Some p"
  have r': "r < length (recursos s)"
  proof (rule ccontr)
    assume "\<not> r < length (recursos s)"
    from add_recurso_frame(5) [OF r this] d show False by simp
  qed
  with d have "dono (recursos s ! r) = Some p" by (simp add: add_recurso_frame(4))
  from consistent_owner [OF assms r' this]
  show "p < length (processos ?s) \<and> r \<in> set (recursos_posse (processos ?s ! p))"
    by (simp add: add_recurso_frame(1))
next
  let ?s = "snd (add_recurso n s)"
  fix r p assume "p < length (processos ?s)" "r \<in> set (recursos_posse (processos ?s ! p))"
  then have "p < length (processos s)" "r \<in> set (recursos_posse (processos s ! p))"
    by (simp_all add: add_recurso_frame(1))
  from consistent_held [OF assms this]
  have "r < length (recursos s)" "dono (recursos s ! r) = Some p" by simp_all
  then show "r < length (recursos ?s) \<and> dono (recursos ?s ! r) = Some p"
    using add_recurso_frame(3) [of s n] by (simp add: add_recurso_frame(4))
next
  let ?s = "snd (add_recurso n s)"
  fix p assume "p < length (processos ?s)"
  then show "distinct (recursos_posse (processos ?s ! p))"
    using consistent_distinct [OF assms, of p] by (simp add: add_recurso_frame(1))
qed


lemma add_processo_config_frame:
  "recursos (snd (add_processo_config ts tu s)) = recursos s"
  "processos (snd (add_processo_config ts tu s)) = processos s"
  "timers (snd (add_processo_config ts tu s)) = timers s"
  by (auto simp: add_processo_config_def split: option.splits)

lemma start_simulation_frame:
  "recursos (snd (start_simulation dt s)) = recursos s"
  "timers (snd (start_simulation dt s)) = timers s"
  by (auto simp: start_simulation_def Let_def split: option.splits prod.splits)

lemma start_simulation_processos:
  "length (processos s) \<le> length (processos (snd (start_simulation dt s)))"
  "p < length (processos s) \<Longrightarrow>
     recursos_posse (processos (snd (start_simulation dt s)) ! p) = recursos_posse (processos s ! p) \<and>
     recurso_aguardando (processos (snd (start_simulation dt s)) ! p)
       = recurso_aguardando (processos s ! p) \<and>
     ctl (processos (snd (start_simulation dt s)) ! p) = ctl (processos s ! p)"
  "p < length (processos (snd (start_simulation dt s))) \<Longrightarrow> \<not> p < length (processos s) \<Longrightarrow>
     recursos_posse (processos (snd (start_simulation dt s)) ! p) = [] \<and>
     recurso_aguardando (processos (snd (start_simulation dt s)) ! p) = None \<and>
     ctl (processos (snd (start_simulation dt s)) ! p) = Ocioso"
proof -
  let ?ps = "processos s @ map (\<lambda>c. Processo (c_id c) (c_ts c) (c_tu c)) (temp_process_configs s)"
  obtain ok ps' where st: "start_threads [0..<length ?ps] ?ps = (ok, ps')"
    by (cases "start_threads [0..<length ?ps] ?ps") auto
  note len = start_threads_length [OF st]
  have cases: "processos (snd (start_simulation dt s)) = processos s
      \<or> processos (snd (start_simulation dt s)) = ps'"
    using st by (auto simp: start_simulation_def Let_def split: option.splits)
  show "length (processos s) \<le> length (processos (snd (start_simulation dt s)))"
    using cases len by auto
  show "recursos_posse (processos (snd (start_simulation dt s)) ! p) = recursos_posse (processos s ! p) \<and>
     recurso_aguardando (processos (snd (start_simulation dt s)) ! p)
       = recurso_aguardando (processos s ! p) \<and>
     ctl (processos (snd (start_simulation dt s)) ! p) = ctl (processos s ! p)"
    if "p < length (processos s)"
  proof -
    from that have "p < length ?ps" by simp
    from start_threads_nth [OF st this] that cases show ?thesis
      by (auto simp: nth_append)
  qed
  show "recursos_posse (processos (snd (start_simulation dt s)) ! p) = [] \<and>
     recurso_aguardando (processos (snd (start_simulation dt s)) ! p) = None \<and>
     ctl (processos (snd (start_simulation dt s)) ! p) = Ocioso"
    if a: "p < length (processos (snd (start_simulation dt s)))" and b: "\<not> p < length (processos s)"
  proof -
    from a b cases have eq: "processos (snd (start_simulation dt s)) = ps'" by auto
    with a len have "p < length ?ps" by simp
    from start_threads_nth [OF st this] b eq \<open>p < length ?ps\<close> show ?thesis
      by (auto simp: nth_append Processo_def)
  qed
qed


lemma disponiveis_iff:
  "r \<in> set (disponiveis_para_pedir p s) \<longleftrightarrow>
   r < length (recursos s) \<and> r \<notin> set (recursos_posse (processos s ! p))"
  by (auto simp: disponiveis_para_pedir_def)

lemma choice_in_set: "d \<noteq> [] \<Longrightarrow> d ! (k mod length d) \<in> set d"
  by simp

lemma run_iteration_frame:
  "recursos (run_iteration p k s) = recursos s"
  "timers (run_iteration p k s) = timers s"
  "length (processos (run_iteration p k s)) = length (processos s)"
  by (simp_all add: run_iteration_def Let_def)

lemma run_iteration_fields:
  "q < length (processos s) \<Longrightarrow>
     recursos_posse (processos (run_iteration p k s) ! q) = recursos_posse (processos s ! q) \<and>
     recurso_aguardando (processos (run_iteration p k s) ! q) = recurso_aguardando (processos s ! q)"
  by (simp add: run_iteration_def Let_def nth_upd)

lemma run_iteration_ctl:
  "q < length (processos s) \<Longrightarrow> ctl (processos (run_iteration p k s) ! q) = Solicitando r \<Longrightarrow>
     ctl (processos s ! q) = Solicitando r \<or>
     (q = p \<and> r < length (recursos s) \<and> r \<notin> set (recursos_posse (processos s ! p)))"
proof -
  assume q: "q < length (processos s)"
    and c: "ctl (processos (run_iteration p k s) ! q) = Solicitando r"
  let ?d = "disponiveis_para_pedir p s"
  show ?thesis
  proof (cases "?d = [] \<or> q \<noteq> p")
    case True
    with q c show ?thesis by (auto simp: run_iteration_def Let_def nth_upd split: if_splits)
  next
    case False
    then have "?d \<noteq> []" "q = p" by auto
    with q c have "r = ?d ! (k mod length ?d)"
      by (simp add: run_iteration_def Let_def nth_upd)
    with \<open>?d \<noteq> []\<close> have "r \<in> set ?d" using choice_in_set by blast
    with \<open>q = p\<close> show ?thesis by (simp add: disponiveis_iff)
  qed
qed

lemma solicitar_blocked_frame:
  assumes "dono (recursos s ! r) \<noteq> None"
  shows "length (recursos (solicitar_recurso p r s)) = length (recursos s)"
    and "length (processos (solicitar_recurso p r s)) = length (processos s)"
    and "timers (solicitar_recurso p r s) = timers s"
    and "x < length (recursos s) \<Longrightarrow>
         dono (recursos (solicitar_recurso p r s) ! x) = dono (recursos s ! x)"
    and "q < length (processos s) \<Longrightarrow>
         recursos_posse (processos (solicitar_recurso p r s) ! q) = recursos_posse (processos s ! q)"
    and "q < length (processos s) \<Longrightarrow>
         recurso_aguardando (processos (solicitar_recurso p r s) ! q)
           = (if q = p then Some r else recurso_aguardando (processos s ! q))"
    and "q < length (processos s) \<Longrightarrow>
         ctl (processos (solicitar_recurso p r s) ! q)
           = (if q = p then Dormindo r else ctl (processos s ! q))"
  using assms by (simp_all add: solicitar_recurso_def Let_def nth_upd)

lemma solicitar_free_frame:
  assumes "dono (recursos s ! r) = None"
  shows "length (recursos (solicitar_recurso p r s)) = length (recursos s)"
    and "length (processos (solicitar_recurso p r s)) = length (processos s)"
    and "timers (solicitar_recurso p r s) = timers s @ [(p, r)]"
    and "x < length (recursos s) \<Longrightarrow>
         dono (recursos (solicitar_recurso p r s) ! x)
           = (if x = r then Some p else dono (recursos s ! x))"
    and "q < length (processos s) \<Longrightarrow>
         recursos_posse (processos (solicitar_recurso p r s) ! q)
           = (if q = p then recursos_posse (processos s ! p) @ [r]
              else recursos_posse (processos s ! q))"
    and "q < length (processos s) \<Longrightarrow>
         recurso_aguardando (processos (solicitar_recurso p r s) ! q)
           = (if q = p then None else recurso_aguardando (processos s ! q))"
    and "q < length (processos s) \<Longrightarrow>
         ctl (processos (solicitar_recurso p r s) ! q)
           = (if q = p then Ocioso else ctl (processos s ! q))"
  using assms by (simp_all add: solicitar_recurso_def Let_def nth_upd)

lemma liberar_not_held:
  "r \<notin> set (recursos_posse (processos s ! p)) \<Longrightarrow> liberar_recurso_agendado p r s = s"
  by (simp add: liberar_recurso_agendado_def)

lemma liberar_held_frame:
  assumes "r \<in> set (recursos_posse (processos s ! p))"
  shows "length (recursos (liberar_recurso_agendado p r s)) = length (recursos s)"
    and "length (processos (liberar_recurso_agendado p r s)) = length (processos s)"
    and "timers (liberar_recurso_agendado p r s) = timers s"
    and "x < length (recursos s) \<Longrightarrow>
         dono (recursos (liberar_recurso_agendado p r s) ! x)
           = (if x = r then None else dono (recursos s ! x))"
    and "x < length (recursos s) \<Longrightarrow>
         condicao (recursos (liberar_recurso_agendado p r s) ! x)
           = (if x = r then [] else condicao (recursos s ! x))"
    and "q < length (processos s) \<Longrightarrow>
         recursos_posse (processos (liberar_recurso_agendado p r s) ! q)
           = (if q = p then remove1 r (recursos_posse (processos s ! p))
              else recursos_posse (processos s ! q))"
    and "q < length (processos s) \<Longrightarrow>
         recurso_aguardando (processos (liberar_recurso_agendado p r s) ! q)
           = recurso_aguardando (processos s ! q)"
    and "q < length (processos s) \<Longrightarrow>
         ctl (processos (liberar_recurso_agendado p r s) ! q)
           = (if q \<in> set (condicao (recursos s ! r)) then Solicitando r
              else ctl (processos s ! q))"
  using assms by (simp_all add: liberar_recurso_agendado_def Let_def nth_upd notify_all_nth)


lemma no_self_waitI:
  assumes "\<And>p r. p < length (processos s) \<Longrightarrow> recurso_aguardando (processos s ! p) = Some r \<Longrightarrow>
             r \<notin> set (recursos_posse (processos s ! p))"
    and "\<And>p r. p < length (processos s) \<Longrightarrow> ctl (processos s ! p) = Solicitando r \<Longrightarrow>
             r < length (recursos s) \<and> r \<notin> set (recursos_posse (processos s ! p))"
  shows "no_self_wait s"
  unfolding no_self_wait_def using assms by blast

lemma no_self_wait_aguardando:
  "no_self_wait s \<Longrightarrow> p < length (processos s) \<Longrightarrow> recurso_aguardando (processos s ! p) = Some r \<Longrightarrow>
   r \<notin> set (recursos_posse (processos s ! p))"
  unfolding no_self_wait_def by blast

lemma no_self_wait_ctl:
  "no_self_wait s \<Longrightarrow> p < length (processos s) \<Longrightarrow> ctl (processos s ! p) = Solicitando r \<Longrightarrow>
   r < length (recursos s) \<and> r \<notin> set (recursos_posse (processos s ! p))"
  unfolding no_self_wait_def by blast

lemma timers_okD: "timers_ok s \<Longrightarrow> (p, r) \<in> set (timers s) \<Longrightarrow> p < length (processos s)"
  unfolding timers_ok_def by blast

lemma invariant_add_recurso:
  assumes "invariant s" shows "invariant (snd (add_recurso n s))"
proof -
  from assms have c: "consistent s" and w: "no_self_wait s" and t: "timers_ok s"
    by (simp_all add: invariant_def)
  have "no_self_wait (snd (add_recurso n s))"
  proof (rule no_self_waitI)
    fix p r
    assume "p < length (processos (snd (add_recurso n s)))"
      "recurso_aguardando (processos (snd (add_recurso n s)) ! p) = Some r"
    then show "r \<notin> set (recursos_posse (processos (snd (add_recurso n s)) ! p))"
      using no_self_wait_aguardando [OF w, of p r] by (simp add: add_recurso_frame(1))
  next
    fix p r
    assume "p < length (processos (snd (add_recurso n s)))"
      "ctl (processos (snd (add_recurso n s)) ! p) = Solicitando r"
    then show "r < length (recursos (snd (add_recurso n s))) \<and>
        r \<notin> set (recursos_posse (processos (snd (add_recurso n s)) ! p))"
      using no_self_wait_ctl [OF w, of p r] add_recurso_frame(3) [of s n]
      by (simp add: add_recurso_frame(1))
  qed
  moreover have "timers_ok (snd (add_recurso n s))"
    using t by (simp add: timers_ok_def add_recurso_frame)
  ultimately show ?thesis
    using consistent_add_recurso [OF c] by (simp add: invariant_def)
qed

lemma invariant_start_simulation:
  assumes "invariant s" shows "invariant (snd (start_simulation dt s))"
proof -
  let ?s = "snd (start_simulation dt s)"
  from assms have c: "consistent s" and w: "no_self_wait s" and t: "timers_ok s"
    by (simp_all add: invariant_def)
  note le = start_simulation_processos(1) [of s dt]
  have "consistent ?s"
  proof (rule consistentI)
    fix r p assume "r < length (recursos ?s)" "dono (recursos ?s ! r) = Some p"
    then have "r < length (recursos s)" "dono (recursos s ! r) = Some p"
      by (simp_all add: start_simulation_frame)
    from consistent_owner [OF c this]
    have p: "p < length (processos s)" and "r \<in> set (recursos_posse (processos s ! p))"
      by simp_all
    then show "p < length (processos ?s) \<and> r \<in> set (recursos_posse (processos ?s ! p))"
      using le start_simulation_processos(2) [OF p, of dt] by simp
  next
    fix r p assume p': "p < length (processos ?s)" and r: "r \<in> set (recursos_posse (processos ?s ! p))"
    have p: "p < length (processos s)"
    proof (rule ccontr)
      assume "\<not> p < length (processos s)"
      from start_simulation_processos(3) [OF p' this] r show False by simp
    qed
    with r have "r \<in> set (recursos_posse (processos s ! p))"
      using start_simulation_processos(2) [OF p, of dt] by simp
    from consistent_held [OF c p this]
    show "r < length (recursos ?s) \<and> dono (recursos ?s ! r) = Some p"
      by (simp add: start_simulation_frame)
  next
    fix p assume p': "p < length (processos ?s)"
    show "distinct (recursos_posse (processos ?s ! p))"
    proof (cases "p < length (processos s)")
      case True
      then show ?thesis
        using consistent_distinct [OF c True] start_simulation_processos(2) [OF True, of dt]
        by simp
    next
      case False
      from start_simulation_processos(3) [OF p' False] show ?thesis by simp
    qed
  qed
  moreover have "no_self_wait ?s"
  proof (rule no_self_waitI)
    fix p r
    assume p': "p < length (processos ?s)"
      and a: "recurso_aguardando (processos ?s ! p) = Some r"
    have p: "p < length (processos s)"
    proof (rule ccontr)
      assume "\<not> p < length (processos s)"
      from start_simulation_processos(3) [OF p' this] a show False by simp
    qed
    from a show "r \<notin> set (recursos_posse (processos ?s ! p))"
      using no_self_wait_aguardando [OF w p, of r] start_simulation_processos(2) [OF p, of dt]
      by simp
  next
    fix p r
    assume p': "p < length (processos ?s)" and a: "ctl (processos ?s ! p) = Solicitando r"
    have p: "p < length (processos s)"
    proof (rule ccontr)
      assume "\<not> p < length (processos s)"
      from start_simulation_processos(3) [OF p' this] a show False by simp
    qed
    from a show "r < length (recursos ?s) \<and> r \<notin> set (recursos_posse (processos ?s ! p))"
      using no_self_wait_ctl [OF w p, of r] start_simulation_processos(2) [OF p, of dt]
      by (simp add: start_simulation_frame)
  qed
  moreover have "timers_ok ?s"
    unfolding timers_ok_def start_simulation_frame
  proof (clarify)
    fix p r assume "(p, r) \<in> set (timers s)"
    from timers_okD [OF t this] le show "p < length (processos ?s)" by simp
  qed
  ultimately show ?thesis by (simp add: invariant_def)
qed



lemma invariant_add_processo_config:
  "invariant s \<Longrightarrow> invariant (snd (add_processo_config ts tu s))"
  unfolding invariant_def consistent_def no_self_wait_def timers_ok_def add_processo_config_frame .



lemma invariant_run_iteration:
  assumes "invariant s" shows "invariant (run_iteration p k s)"
proof -
  let ?s = "run_iteration p k s"
  from assms have c: "consistent s" and w: "no_self_wait s" and t: "timers_ok s"
    by (simp_all add: invariant_def)
  have "consistent ?s"
  proof (rule consistentI)
    fix r q assume "r < length (recursos ?s)" "dono (recursos ?s ! r) = Some q"
    then have "r < length (recursos s)" "dono (recursos s ! r) = Some q"
      by (simp_all add: run_iteration_frame)
    from consistent_owner [OF c this]
    show "q < length (processos ?s) \<and> r \<in> set (recursos_posse (processos ?s ! q))"
      by (simp add: run_iteration_frame run_iteration_fields)
  next
    fix r q assume "q < length (processos ?s)" "r \<in> set (recursos_posse (processos ?s ! q))"
    then have "q < length (processos s)" "r \<in> set (recursos_posse (processos s ! q))"
      by (simp_all add: run_iteration_frame run_iteration_fields)
    from consistent_held [OF c this]
    show "r < length (recursos ?s) \<and> dono (recursos ?s ! r) = Some q"
      by (simp add: run_iteration_frame)
  next
    fix q assume "q < length (processos ?s)"
    then have q: "q < length (processos s)" by (simp add: run_iteration_frame)
    from consistent_distinct [OF c q] q
    show "distinct (recursos_posse (processos ?s ! q))"
      by (simp add: run_iteration_fields)
  qed
  moreover have "no_self_wait ?s"
  proof (rule no_self_waitI)
    fix q r
    assume "q < length (processos ?s)" "recurso_aguardando (processos ?s ! q) = Some r"
    then show "r \<notin> set (recursos_posse (processos ?s ! q))"
      using no_self_wait_aguardando [OF w, of q r]
      by (simp add: run_iteration_frame run_iteration_fields)
  next
    fix q r
    assume q': "q < length (processos ?s)" and a: "ctl (processos ?s ! q) = Solicitando r"
    then have q: "q < length (processos s)" by (simp add: run_iteration_frame)
    from run_iteration_ctl [OF q a] no_self_wait_ctl [OF w q, of r]
    show "r < length (recursos ?s) \<and> r \<notin> set (recursos_posse (processos ?s ! q))"
      using q by (auto simp: run_iteration_frame run_iteration_fields)
  qed
  moreover have "timers_ok ?s"
    using t unfolding timers_ok_def run_iteration_frame .
  ultimately show ?thesis by (simp add: invariant_def)
qed

lemma invariant_solicitar_recurso:
  assumes "invariant s" and p: "p < length (processos s)" and ctl: "ctl (processos s ! p) = Solicitando r"
  shows "invariant (solicitar_recurso p r s)"
proof -
  let ?s = "solicitar_recurso p r s"
  from assms have c: "consistent s" and w: "no_self_wait s" and t: "timers_ok s"
    by (simp_all add: invariant_def)
  from no_self_wait_ctl [OF w p ctl]
  have r: "r < length (recursos s)" and nh: "r \<notin> set (recursos_posse (processos s ! p))"
    by simp_all
  show ?thesis
  proof (cases "dono (recursos s ! r) = None")
    case False
    note f = solicitar_blocked_frame [OF False, where p = p]
    have "consistent ?s"
    proof (rule consistentI)
      fix x q assume "x < length (recursos ?s)" "dono (recursos ?s ! x) = Some q"
      then have "x < length (recursos s)" "dono (recursos s ! x) = Some q"
        by (simp_all add: f)
      from consistent_owner [OF c this]
      show "q < length (processos ?s) \<and> x \<in> set (recursos_posse (processos ?s ! q))"
        by (auto simp: f)
    next
      fix x q assume "q < length (processos ?s)" "x \<in> set (recursos_posse (processos ?s ! q))"
      then have "q < length (processos s)" "x \<in> set (recursos_posse (processos s ! q))"
        by (simp_all add: f)
      from consistent_held [OF c this]
      show "x < length (recursos ?s) \<and> dono (recursos ?s ! x) = Some q"
        by (auto simp: f)
    next
      fix q assume "q < length (processos ?s)"
      then have q: "q < length (processos s)" by (auto simp: f)
      from consistent_distinct [OF c q] q
      show "distinct (recursos_posse (processos ?s ! q))" by (auto simp: f)
    qed
    moreover have "no_self_wait ?s"
    proof (rule no_self_waitI)
      fix q x
      assume "q < length (processos ?s)" and a: "recurso_aguardando (processos ?s ! q) = Some x"
      then have q: "q < length (processos s)" by (auto simp: f)
      show "x \<notin> set (recursos_posse (processos ?s ! q))"
      proof (cases "q = p")
        case True
        with a q have "x = r" by (auto simp: f)
        with nh q True show ?thesis by (auto simp: f)
      next
        case False
        with a q no_self_wait_aguardando [OF w q, of x] show ?thesis by (auto simp: f)
      qed
    next
      fix q x
      assume "q < length (processos ?s)" and a: "ctl (processos ?s ! q) = Solicitando x"
      then have q: "q < length (processos s)" by (auto simp: f)
      show "x < length (recursos ?s) \<and> x \<notin> set (recursos_posse (processos ?s ! q))"
      proof (cases "q = p")
        case True
        with a q show ?thesis by (auto simp: f)
      next
        case False
        with a q no_self_wait_ctl [OF w q, of x] show ?thesis by (auto simp: f)
      qed
    qed
    moreover have "timers_ok ?s"
      using t unfolding timers_ok_def f .
    ultimately show ?thesis by (simp add: invariant_def)
  next
    case True
    note f = solicitar_free_frame [OF True, where p = p]
    have free: "\<And>q. q < length (processos s) \<Longrightarrow> r \<notin> set (recursos_posse (processos s ! q))"
    proof
      fix q assume "q < length (processos s)" "r \<in> set (recursos_posse (processos s ! q))"
      from consistent_held [OF c this] True show False by simp
    qed
    have "consistent ?s"
    proof (rule consistentI)
      fix x q assume x': "x < length (recursos ?s)" and d: "dono (recursos ?s ! x) = Some q"
      then have x: "x < length (recursos s)" by (auto simp: f)
      show "q < length (processos ?s) \<and> x \<in> set (recursos_posse (processos ?s ! q))"
      proof (cases "x = r")
        case True
        with d x have "q = p" by (auto simp: f)
        with True x p show ?thesis by (auto simp: f)
      next
        case False
        with d x have "dono (recursos s ! x) = Some q" by (auto simp: f)
        from consistent_owner [OF c x this] show ?thesis by (auto simp: f)
      qed
    next
      fix x q assume "q < length (processos ?s)"
        and h: "x \<in> set (recursos_posse (processos ?s ! q))"
      then have q: "q < length (processos s)" by (auto simp: f)
      show "x < length (recursos ?s) \<and> dono (recursos ?s ! x) = Some q"
      proof (cases "x = r")
        case True
        with h q free [OF q] have "q = p" by (simp add: f split: if_splits)
        with True r show ?thesis by (auto simp: f)
      next
        case False
        with h q have "x \<in> set (recursos_posse (processos s ! q))"
          by (simp add: f split: if_splits)
        from consistent_held [OF c q this] False show ?thesis by (auto simp: f)
      qed
    next
      fix q assume "q < length (processos ?s)"
      then have q: "q < length (processos s)" by (auto simp: f)
      from consistent_distinct [OF c q] q nh
      show "distinct (recursos_posse (processos ?s ! q))" by (auto simp: f)
    qed
    moreover have "no_self_wait ?s"
    proof (rule no_self_waitI)
      fix q x
      assume "q < length (processos ?s)" and a: "recurso_aguardando (processos ?s ! q) = Some x"
      then have q: "q < length (processos s)" by (auto simp: f)
      from a q have "q \<noteq> p" by (auto simp: f)
      with a q no_self_wait_aguardando [OF w q, of x]
      show "x \<notin> set (recursos_posse (processos ?s ! q))" by (auto simp: f)
    next
      fix q x
      assume "q < length (processos ?s)" and a: "ctl (processos ?s ! q) = Solicitando x"
      then have q: "q < length (processos s)" by (auto simp: f)
      from a q have "q \<noteq> p" by (auto simp: f)
      with a q no_self_wait_ctl [OF w q, of x]
      show "x < length (recursos ?s) \<and> x \<notin> set (recursos_posse (processos ?s ! q))"
        by (auto simp: f)
    qed
    moreover have "timers_ok ?s"
      unfolding timers_ok_def
    proof (clarify)
      fix a b assume "(a, b) \<in> set (timers ?s)"
      then have "(a, b) \<in> set (timers s) \<or> a = p" by (auto simp: f)
      with timers_okD [OF t] p show "a < length (processos ?s)" by (auto simp: f)
    qed
    ultimately show ?thesis by (simp add: invariant_def)
  qed
qed

lemma invariant_drop_timer: "invariant s \<Longrightarrow> invariant (s\<lparr>timers := remove1 e (timers s)\<rparr>)"
proof -
  assume i: "invariant s"
  then have "timers_ok s" by (simp add: invariant_def)
  then have "timers_ok (s\<lparr>timers := remove1 e (timers s)\<rparr>)"
    unfolding timers_ok_def using notin_set_remove1 [of _ "timers s" e] by fastforce
  moreover have "consistent (s\<lparr>timers := remove1 e (timers s)\<rparr>) = consistent s"
    by (simp add: consistent_def)
  moreover have "no_self_wait (s\<lparr>timers := remove1 e (timers s)\<rparr>) = no_self_wait s"
    by (simp add: no_self_wait_def)
  ultimately show ?thesis using i by (simp add: invariant_def)
qed

lemma invariant_liberar_recurso_agendado:
  assumes "invariant s" and p: "p < length (processos s)"
  shows "invariant (liberar_recurso_agendado p r s)"
proof (cases "r \<in> set (recursos_posse (processos s ! p))")
  case False
  with assms show ?thesis by (simp add: liberar_not_held)
next
  case True
  let ?s = "liberar_recurso_agendado p r s"
  note f = liberar_held_frame [OF True]
  from assms have c: "consistent s" and w: "no_self_wait s" and t: "timers_ok s"
    by (simp_all add: invariant_def)
  from consistent_held [OF c p True]
  have r: "r < length (recursos s)" and own: "dono (recursos s ! r) = Some p"
    by simp_all
  from consistent_distinct [OF c p] have dist: "distinct (recursos_posse (processos s ! p))" .
  have others: "\<And>q. q < length (processos s) \<Longrightarrow> q \<noteq> p \<Longrightarrow>
      r \<notin> set (recursos_posse (processos s ! q))"
  proof
    fix q assume q: "q < length (processos s)" and "q \<noteq> p"
      and "r \<in> set (recursos_posse (processos s ! q))"
    from consistent_held [OF c q this(3)] own \<open>q \<noteq> p\<close> show False by simp
  qed
  have gone: "\<And>q. q < length (processos s) \<Longrightarrow> r \<notin> set (recursos_posse (processos ?s ! q))"
  proof -
    fix q assume q: "q < length (processos s)"
    show "r \<notin> set (recursos_posse (processos ?s ! q))"
    proof (cases "q = p")
      case True
      with q dist show ?thesis by (auto simp: f)
    next
      case False
      with q others [OF q False] show ?thesis by (auto simp: f)
    qed
  qed
  have sub: "\<And>q x. q < length (processos s) \<Longrightarrow> x \<in> set (recursos_posse (processos ?s ! q)) \<Longrightarrow>
      x \<in> set (recursos_posse (processos s ! q))"
  proof -
    fix q x assume q: "q < length (processos s)" and "x \<in> set (recursos_posse (processos ?s ! q))"
    then show "x \<in> set (recursos_posse (processos s ! q))"
      using set_remove1_subset [of r "recursos_posse (processos s ! p)"]
      by (auto simp: f split: if_splits)
  qed
  have "consistent ?s"
  proof (rule consistentI)
    fix x q assume "x < length (recursos ?s)" and d: "dono (recursos ?s ! x) = Some q"
    then have x: "x < length (recursos s)" by (simp add: f)
    with d have ne: "x \<noteq> r" by (auto simp: f)
    with d x have "dono (recursos s ! x) = Some q" by (auto simp: f)
    from consistent_owner [OF c x this]
    have q: "q < length (processos s)" and "x \<in> set (recursos_posse (processos s ! q))"
      by simp_all
    with ne show "q < length (processos ?s) \<and> x \<in> set (recursos_posse (processos ?s ! q))"
      by (auto simp: f)
  next
    fix x q assume "q < length (processos ?s)"
      and h: "x \<in> set (recursos_posse (processos ?s ! q))"
    then have q: "q < length (processos s)" by (simp add: f)
    from gone [OF q] h have ne: "x \<noteq> r" by auto
    from consistent_held [OF c q sub [OF q h]] ne
    show "x < length (recursos ?s) \<and> dono (recursos ?s ! x) = Some q"
      by (auto simp: f)
  next
    fix q assume "q < length (processos ?s)"
    then have q: "q < length (processos s)" by (simp add: f)
    from consistent_distinct [OF c q] q
    show "distinct (recursos_posse (processos ?s ! q))" by (auto simp: f)
  qed
  moreover have "no_self_wait ?s"
  proof (rule no_self_waitI)
    fix q x
    assume "q < length (processos ?s)" and a: "recurso_aguardando (processos ?s ! q) = Some x"
    then have q: "q < length (processos s)" by (simp add: f)
    with a have "recurso_aguardando (processos s ! q) = Some x" by (simp add: f)
    from no_self_wait_aguardando [OF w q this] sub [OF q]
    show "x \<notin> set (recursos_posse (processos ?s ! q))" by blast
  next
    fix q x
    assume "q < length (processos ?s)" and a: "ctl (processos ?s ! q) = Solicitando x"
    then have q: "q < length (processos s)" by (simp add: f)
    show "x < length (recursos ?s) \<and> x \<notin> set (recursos_posse (processos ?s ! q))"
    proof (cases "q \<in> set (condicao (recursos s ! r))")
      case True
      with a q have "x = r" by (simp add: f)
      with r gone [OF q] show ?thesis by (simp add: f)
    next
      case False
      with a q have "ctl (processos s ! q) = Solicitando x" by (simp add: f)
      from no_self_wait_ctl [OF w q this] sub [OF q]
      show ?thesis by (auto simp: f)
    qed
  qed
  moreover have "timers_ok ?s"
    using t unfolding timers_ok_def f .
  ultimately show ?thesis by (simp add: invariant_def)
qed

lemma reachable_invariant: "reachable s \<Longrightarrow> invariant s"
proof (induction rule: reachable.induct)
  case reach_App
  show ?case by (rule invariant_App)
next
  case (reach_add_recurso s n)
  then show ?case by (simp add: invariant_add_recurso)
next
  case (reach_add_processo_config s ts tu)
  then show ?case by (simp add: invariant_add_processo_config)
next
  case (reach_start_simulation s dt)
  then show ?case by (simp add: invariant_start_simulation)
next
  case (reach_run s p k)
  then show ?case by (simp add: invariant_run_iteration)
next
  case (reach_solicitar s p r)
  then show ?case by (simp add: invariant_solicitar_recurso)
next
  case (reach_liberar s p r)
  let ?s = "s\<lparr>timers := remove1 (p, r) (timers s)\<rparr>"
  from reach_liberar.IH have "timers_ok s" by (simp add: invariant_def)
  from timers_okD [OF this reach_liberar.hyps(2)] have "p < length (processos ?s)" by simp
  with invariant_drop_timer [OF reach_liberar.IH, of "(p, r)"]
  show ?case by (rule invariant_liberar_recurso_agendado)
qed


section \<open>The scenarios are reachable\<close>

lemma reachable_exemplo_inicio: "reachable exemplo_inicio"
  unfolding exemplo_inicio_def
  by (intro reach_start_simulation reach_add_processo_config reach_add_recurso reach_App)

lemma reachable_exemplo_posse: "reachable exemplo_posse"
proof -
  note s0 = reachable_exemplo_inicio
  have s1: "reachable (run_iteration 0 0 exemplo_inicio)"
    by (rule reach_run [OF s0]; code_simp)
  have s2: "reachable (solicitar_recurso 0 0 (run_iteration 0 0 exemplo_inicio))"
    by (rule reach_solicitar [OF s1]; code_simp)
  have s3: "reachable (run_iteration 1 1 (solicitar_recurso 0 0 (run_iteration 0 0 exemplo_inicio)))"
    by (rule reach_run [OF s2]; code_simp)
  show ?thesis unfolding exemplo_posse_def
    by (rule reach_solicitar [OF s3]; code_simp)
qed

lemma cenario_bloqueio_eq:
  "cenario_bloqueio = solicitar_recurso 1 0 (run_iteration 1 0 exemplo_posse)"
  by code_simp

lemma cenario_deadlock_eq:
  "cenario_deadlock = solicitar_recurso 1 0 (run_iteration 1 0
      (solicitar_recurso 0 1 (run_iteration 0 0 exemplo_posse)))"
  by code_simp

lemma reachable_cenario_bloqueio: "reachable cenario_bloqueio"
proof -
  have s1: "reachable (run_iteration 1 0 exemplo_posse)"
    by (rule reach_run [OF reachable_exemplo_posse]; code_simp)
  show ?thesis unfolding cenario_bloqueio_eq
    by (rule reach_solicitar [OF s1]; code_simp)
qed

lemma reachable_cenario_deadlock: "reachable cenario_deadlock"
proof -
  have s1: "reachable (run_iteration 0 0 exemplo_posse)"
    by (rule reach_run [OF reachable_exemplo_posse]; code_simp)
  have s2: "reachable (solicitar_recurso 0 1 (run_iteration 0 0 exemplo_posse))"
    by (rule reach_solicitar [OF s1]; code_simp)
  have s3: "reachable (run_iteration 1 0 (solicitar_recurso 0 1 (run_iteration 0 0 exemplo_posse)))"
    by (rule reach_run [OF s2]; code_simp)
  show ?thesis unfolding cenario_deadlock_eq
    by (rule reach_solicitar [OF s3]; code_simp)
qed

section \<open>Suspended threads\<close>

lemma waiters_okI:
  assumes "\<And>r q. r < length (recursos s) \<Longrightarrow> q \<in> set (condicao (recursos s ! r)) \<Longrightarrow>
             q < length (processos s) \<and> ctl (processos s ! q) = Dormindo r"
    and "\<And>q r. q < length (processos s) \<Longrightarrow> ctl (processos s ! q) = Dormindo r \<Longrightarrow>
             r < length (recursos s) \<and> q \<in> set (condicao (recursos s ! r))"
    and "\<And>q r. q < length (processos s) \<Longrightarrow> recurso_aguardando (processos s ! q) = Some r \<Longrightarrow>
             r < length (recursos s)"
  shows "waiters_ok s"
  unfolding waiters_ok_def using assms by blast

lemma waiters_ok_condicao:
  "waiters_ok s \<Longrightarrow> r < length (recursos s) \<Longrightarrow> q \<in> set (condicao (recursos s ! r)) \<Longrightarrow>
   q < length (processos s) \<and> ctl (processos s ! q) = Dormindo r"
  unfolding waiters_ok_def by blast

lemma waiters_ok_ctl:
  "waiters_ok s \<Longrightarrow> q < length (processos s) \<Longrightarrow> ctl (processos s ! q) = Dormindo r \<Longrightarrow>
   r < length (recursos s) \<and> q \<in> set (condicao (recursos s ! r))"
  unfolding waiters_ok_def by blast

lemma waiters_ok_aguardando:
  "waiters_ok s \<Longrightarrow> q < length (processos s) \<Longrightarrow> recurso_aguardando (processos s ! q) = Some r \<Longrightarrow>
   r < length (recursos s)"
  unfolding waiters_ok_def by blast

lemma waiters_ok_App: "waiters_ok App"
  by (simp add: waiters_ok_def App_def)

lemma add_recurso_condicao:
  "r < length (recursos (snd (add_recurso n s))) \<Longrightarrow> \<not> r < length (recursos s) \<Longrightarrow>
     condicao (recursos (snd (add_recurso n s)) ! r) = []"
  by (auto simp: add_recurso_def Recurso_def nth_append split: if_splits)

lemma waiters_ok_add_recurso:
  assumes w: "waiters_ok s" shows "waiters_ok (snd (add_recurso n s))"
proof (rule waiters_okI)
  let ?s = "snd (add_recurso n s)"
  fix r q assume r': "r < length (recursos ?s)" and q: "q \<in> set (condicao (recursos ?s ! r))"
  have r: "r < length (recursos s)"
  proof (rule ccontr)
    assume "\<not> r < length (recursos s)"
    from add_recurso_condicao [OF r' this] q show False by simp
  qed
  with q have "q \<in> set (condicao (recursos s ! r))" by (simp add: add_recurso_frame(4))
  from waiters_ok_condicao [OF w r this]
  show "q < length (processos ?s) \<and> ctl (processos ?s ! q) = Dormindo r"
    by (simp add: add_recurso_frame(1))
next
  let ?s = "snd (add_recurso n s)"
  fix q r assume "q < length (processos ?s)" "ctl (processos ?s ! q) = Dormindo r"
  then have "q < length (processos s)" "ctl (processos s ! q) = Dormindo r"
    by (simp_all add: add_recurso_frame(1))
  from waiters_ok_ctl [OF w this]
  show "r < length (recursos ?s) \<and> q \<in> set (condicao (recursos ?s ! r))"
    using add_recurso_frame(3) [of s n] by (simp add: add_recurso_frame(4))
next
  let ?s = "snd (add_recurso n s)"
  fix q r assume "q < length (processos ?s)" "recurso_aguardando (processos ?s ! q) = Some r"
  then have "q < length (processos s)" "recurso_aguardando (processos s ! q) = Some r"
    by (simp_all add: add_recurso_frame(1))
  from waiters_ok_aguardando [OF w this]
  show "r < length (recursos ?s)"
    using add_recurso_frame(3) [of s n] by simp
qed

lemma waiters_ok_add_processo_config:
  "waiters_ok s \<Longrightarrow> waiters_ok (snd (add_processo_config ts tu s))"
  unfolding waiters_ok_def add_processo_config_frame .

lemma waiters_ok_start_simulation:
  assumes w: "waiters_ok s" shows "waiters_ok (snd (start_simulation dt s))"
proof (rule waiters_okI)
  let ?s = "snd (start_simulation dt s)"
  fix r q assume "r < length (recursos ?s)" "q \<in> set (condicao (recursos ?s ! r))"
  then have "r < length (recursos s)" "q \<in> set (condicao (recursos s ! r))"
    by (simp_all add: start_simulation_frame)
  from waiters_ok_condicao [OF w this]
  have q: "q < length (processos s)" and "ctl (processos s ! q) = Dormindo r" by simp_all
  then show "q < length (processos ?s) \<and> ctl (processos ?s ! q) = Dormindo r"
    using start_simulation_processos(1) [of s dt] start_simulation_processos(2) [OF q, of dt]
    by simp
next
  let ?s = "snd (start_simulation dt s)"
  fix q r assume q': "q < length (processos ?s)" and a: "ctl (processos ?s ! q) = Dormindo r"
  have q: "q < length (processos s)"
  proof (rule ccontr)
    assume "\<not> q < length (processos s)"
    from start_simulation_processos(3) [OF q' this] a show False by simp
  qed
  with a have "ctl (processos s ! q) = Dormindo r"
    using start_simulation_processos(2) [OF q, of dt] by simp
  from waiters_ok_ctl [OF w q this]
  show "r < length (recursos ?s) \<and> q \<in> set (condicao (recursos ?s ! r))"
    by (simp add: start_simulation_frame)
next
  let ?s = "snd (start_simulation dt s)"
  fix q r assume q': "q < length (processos ?s)"
    and a: "recurso_aguardando (processos ?s ! q) = Some r"
  have q: "q < length (processos s)"
  proof (rule ccontr)
    assume "\<not> q < length (processos s)"
    from start_simulation_processos(3) [OF q' this] a show False by simp
  qed
  with a have "recurso_aguardando (processos s ! q) = Some r"
    using start_simulation_processos(2) [OF q, of dt] by simp
  from waiters_ok_aguardando [OF w q this]
  show "r < length (recursos ?s)"
    by (simp add: start_simulation_frame)
qed

lemma run_iteration_ctl_other:
  "q < length (processos s) \<Longrightarrow> q \<noteq> p \<Longrightarrow>
     ctl (processos (run_iteration p k s) ! q) = ctl (processos s ! q)"
  by (simp add: run_iteration_def Let_def nth_upd)

lemma run_iteration_ctl_self:
  "p < length (processos s) \<Longrightarrow> ctl (processos s ! p) = Ocioso \<Longrightarrow>
     ctl (processos (run_iteration p k s) ! p) \<noteq> Dormindo r"
  by (simp add: run_iteration_def Let_def nth_upd)

lemma waiters_ok_run_iteration:
  assumes w: "waiters_ok s" and p: "p < length (processos s)"
    and idle: "ctl (processos s ! p) = Ocioso"
  shows "waiters_ok (run_iteration p k s)"
proof (rule waiters_okI)
  let ?s = "run_iteration p k s"
  fix r q assume "r < length (recursos ?s)" "q \<in> set (condicao (recursos ?s ! r))"
  then have "r < length (recursos s)" "q \<in> set (condicao (recursos s ! r))"
    by (simp_all add: run_iteration_frame)
  from waiters_ok_condicao [OF w this]
  have q: "q < length (processos s)" and c: "ctl (processos s ! q) = Dormindo r" by simp_all
  with idle have "q \<noteq> p" by auto
  with q c show "q < length (processos ?s) \<and> ctl (processos ?s ! q) = Dormindo r"
    by (simp add: run_iteration_frame run_iteration_ctl_other)
next
  let ?s = "run_iteration p k s"
  fix q r assume "q < length (processos ?s)" and a: "ctl (processos ?s ! q) = Dormindo r"
  then have q: "q < length (processos s)" by (simp add: run_iteration_frame)
  from a run_iteration_ctl_self [OF p idle, of k r] have "q \<noteq> p" by auto
  with a q have "ctl (processos s ! q) = Dormindo r" by (simp add: run_iteration_ctl_other)
  from waiters_ok_ctl [OF w q this]
  show "r < length (recursos ?s) \<and> q \<in> set (condicao (recursos ?s ! r))"
    by (simp add: run_iteration_frame)
next
  let ?s = "run_iteration p k s"
  fix q r assume "q < length (processos ?s)" "recurso_aguardando (processos ?s ! q) = Some r"
  then have "q < length (processos s)" "recurso_aguardando (processos s ! q) = Some r"
    by (simp_all add: run_iteration_frame run_iteration_fields)
  from waiters_ok_aguardando [OF w this]
  show "r < length (recursos ?s)" by (simp add: run_iteration_frame)
qed

lemma solicitar_blocked_condicao:
  "dono (recursos s ! r) \<noteq> None \<Longrightarrow> x < length (recursos s) \<Longrightarrow>
     condicao (recursos (solicitar_recurso p r s) ! x)
       = (if x = r then condicao (recursos s ! r) @ [p] else condicao (recursos s ! x))"
  by (simp add: solicitar_recurso_def Let_def nth_upd)

lemma solicitar_free_condicao:
  "dono (recursos s ! r) = None \<Longrightarrow> x < length (recursos s) \<Longrightarrow>
     condicao (recursos (solicitar_recurso p r s) ! x) = condicao (recursos s ! x)"
  by (simp add: solicitar_recurso_def Let_def nth_upd)

lemma waiters_ok_solicitar_recurso:
  assumes w: "waiters_ok s" and p: "p < length (processos s)"
    and ctl: "ctl (processos s ! p) = Solicitando r" and r: "r < length (recursos s)"
  shows "waiters_ok (solicitar_recurso p r s)"
proof -
  let ?s = "solicitar_recurso p r s"
  have notin: "\<And>x. x < length (recursos s) \<Longrightarrow> p \<notin> set (condicao (recursos s ! x))"
  proof
    fix x assume "x < length (recursos s)" "p \<in> set (condicao (recursos s ! x))"
    from waiters_ok_condicao [OF w this] ctl show False by simp
  qed
  show ?thesis
  proof (cases "dono (recursos s ! r) = None")
    case False
    note f = solicitar_blocked_frame [OF False, where p = p]
      solicitar_blocked_condicao [OF False, where p = p]
    show ?thesis
    proof (rule waiters_okI)
      fix x q assume "x < length (recursos ?s)" and h: "q \<in> set (condicao (recursos ?s ! x))"
      then have x: "x < length (recursos s)" by (simp add: f)
      show "q < length (processos ?s) \<and> ctl (processos ?s ! q) = Dormindo x"
      proof (cases "q = p")
        case True
        with h x notin [OF x] have "x = r" by (auto simp: f split: if_splits)
        with True p show ?thesis by (auto simp: f)
      next
        case False
        with h x have "q \<in> set (condicao (recursos s ! x))" by (auto simp: f split: if_splits)
        from waiters_ok_condicao [OF w x this] False show ?thesis by (auto simp: f)
      qed
    next
      fix q x assume "q < length (processos ?s)" and a: "ctl (processos ?s ! q) = Dormindo x"
      then have q: "q < length (processos s)" by (simp add: f)
      show "x < length (recursos ?s) \<and> q \<in> set (condicao (recursos ?s ! x))"
      proof (cases "q = p")
        case True
        with a q have "x = r" by (simp add: f)
        with True r show ?thesis by (auto simp: f)
      next
        case False
        with a q have "ctl (processos s ! q) = Dormindo x" by (simp add: f)
        from waiters_ok_ctl [OF w q this] show ?thesis by (auto simp: f)
      qed
    next
      fix q x assume "q < length (processos ?s)"
        and a: "recurso_aguardando (processos ?s ! q) = Some x"
      then have q: "q < length (processos s)" by (simp add: f)
      show "x < length (recursos ?s)"
      proof (cases "q = p")
        case True
        with a q have "x = r" by (simp add: f)
        with r show ?thesis by (simp add: f)
      next
        case False
        with a q have "recurso_aguardando (processos s ! q) = Some x" by (simp add: f)
        from waiters_ok_aguardando [OF w q this] show ?thesis by (simp add: f)
      qed
    qed
  next
    case True
    note f = solicitar_free_frame [OF True, where p = p]
      solicitar_free_condicao [OF True, where p = p]
    show ?thesis
    proof (rule waiters_okI)
      fix x q assume "x < length (recursos ?s)" and h: "q \<in> set (condicao (recursos ?s ! x))"
      then have x: "x < length (recursos s)" by (simp add: f)
      with h have h': "q \<in> set (condicao (recursos s ! x))" by (simp add: f)
      with notin [OF x] have "q \<noteq> p" by auto
      with waiters_ok_condicao [OF w x h']
      show "q < length (processos ?s) \<and> ctl (processos ?s ! q) = Dormindo x"
        by (auto simp: f)
    next
      fix q x assume "q < length (processos ?s)" and a: "ctl (processos ?s ! q) = Dormindo x"
      then have q: "q < length (processos s)" by (simp add: f)
      with a have "q \<noteq> p" by (auto simp: f)
      with a q have "ctl (processos s ! q) = Dormindo x" by (simp add: f)
      from waiters_ok_ctl [OF w q this]
      show "x < length (recursos ?s) \<and> q \<in> set (condicao (recursos ?s ! x))"
        by (auto simp: f)
    next
      fix q x assume "q < length (processos ?s)"
        and a: "recurso_aguardando (processos ?s ! q) = Some x"
      then have q: "q < length (processos s)" by (simp add: f)
      with a have "q \<noteq> p" by (auto simp: f)
      with a q have "recurso_aguardando (processos s ! q) = Some x" by (simp add: f)
      from waiters_ok_aguardando [OF w q this]
      show "x < length (recursos ?s)" by (simp add: f)
    qed
  qed
qed

lemma waiters_ok_liberar_recurso_agendado:
  assumes w: "waiters_ok s" and r: "r < length (recursos s)"
  shows "waiters_ok (liberar_recurso_agendado p r s)"
proof (cases "r \<in> set (recursos_posse (processos s ! p))")
  case False
  with w show ?thesis by (simp add: liberar_not_held)
next
  case True
  let ?s = "liberar_recurso_agendado p r s"
  note f = liberar_held_frame [OF True]
  show ?thesis
  proof (rule waiters_okI)
    fix x q assume "x < length (recursos ?s)" and h: "q \<in> set (condicao (recursos ?s ! x))"
    then have x: "x < length (recursos s)" by (simp add: f)
    with h have ne: "x \<noteq> r" by (auto simp: f)
    with h x have h': "q \<in> set (condicao (recursos s ! x))" by (auto simp: f)
    from waiters_ok_condicao [OF w x h']
    have q: "q < length (processos s)" and c: "ctl (processos s ! q) = Dormindo x" by simp_all
    have "q \<notin> set (condicao (recursos s ! r))"
    proof
      assume "q \<in> set (condicao (recursos s ! r))"
      from waiters_ok_condicao [OF w r this] c ne show False by simp
    qed
    with q c show "q < length (processos ?s) \<and> ctl (processos ?s ! q) = Dormindo x"
      by (auto simp: f)
  next
    fix q x assume "q < length (processos ?s)" and a: "ctl (processos ?s ! q) = Dormindo x"
    then have q: "q < length (processos s)" by (simp add: f)
    with a have nw: "q \<notin> set (condicao (recursos s ! r))" by (auto simp: f)
    with a q have c: "ctl (processos s ! q) = Dormindo x" by (auto simp: f)
    from waiters_ok_ctl [OF w q c]
    have x: "x < length (recursos s)" and h: "q \<in> set (condicao (recursos s ! x))" by simp_all
    with nw have "x \<noteq> r" by auto
    with x h show "x < length (recursos ?s) \<and> q \<in> set (condicao (recursos ?s ! x))"
      by (auto simp: f)
  next
    fix q x assume "q < length (processos ?s)"
      and a: "recurso_aguardando (processos ?s ! q) = Some x"
    then have q: "q < length (processos s)" by (simp add: f)
    with a have "recurso_aguardando (processos s ! q) = Some x" by (simp add: f)
    from waiters_ok_aguardando [OF w q this]
    show "x < length (recursos ?s)" by (simp add: f)
  qed
qed

lemma waiters_ok_drop_timer:
  "waiters_ok (s\<lparr>timers := ts\<rparr>) = waiters_ok s"
  by (simp add: waiters_ok_def)

lemma reachable_waiters_ok: "reachable s \<Longrightarrow> waiters_ok s"
proof (induction rule: reachable.induct)
  case reach_App
  show ?case by (rule waiters_ok_App)
next
  case (reach_add_recurso s n)
  then show ?case by (simp add: waiters_ok_add_recurso)
next
  case (reach_add_processo_config s ts tu)
  then show ?case by (simp add: waiters_ok_add_processo_config)
next
  case (reach_start_simulation s dt)
  then show ?case by (simp add: waiters_ok_start_simulation)
next
  case (reach_run s p k)
  then show ?case by (simp add: waiters_ok_run_iteration)
next
  case (reach_solicitar s p r)
  from reachable_invariant [OF reach_solicitar.hyps(1)] have "no_self_wait s"
    by (simp add: invariant_def)
  from no_self_wait_ctl [OF this reach_solicitar.hyps(2) reach_solicitar.hyps(4)]
  have "r < length (recursos s)" by simp
  with reach_solicitar show ?case by (simp add: waiters_ok_solicitar_recurso)
next
  case (reach_liberar s p r)
  let ?s = "s\<lparr>timers := remove1 (p, r) (timers s)\<rparr>"
  from reachable_invariant [OF reach_liberar.hyps(1)]
  have c: "consistent s" and t: "timers_ok s" by (simp_all add: invariant_def)
  have w: "waiters_ok ?s" using reach_liberar.IH by (simp add: waiters_ok_drop_timer)
  show ?case
  proof (cases "r \<in> set (recursos_posse (processos s ! p))")
    case False
    then have "liberar_recurso_agendado p r ?s = ?s" by (simp add: liberar_not_held)
    with w show ?thesis by simp
  next
    case True
    from consistent_held [OF c timers_okD [OF t reach_liberar.hyps(2)] True]
    have "r < length (recursos ?s)" by simp
    with w show ?thesis by (rule waiters_ok_liberar_recurso_agendado)
  qed
qed

section \<open>The detector on the two scenarios\<close>

lemma cycles_cenario_deadlock:
  "cycles (detectar_deadlock cenario_deadlock) = [[''P1'', ''R2'', ''P2'', ''R1'']]"
  by code_simp

lemma in_deadlock_cenario_deadlock:
  "in_deadlock (detectar_deadlock cenario_deadlock) = [''P1'', ''P2'']"
  by code_simp

lemma cycles_cenario_bloqueio:
  "cycles (detectar_deadlock cenario_bloqueio) = []"
  by code_simp

lemma in_deadlock_cenario_bloqueio:
  "in_deadlock (detectar_deadlock cenario_bloqueio) = []"
  by code_simp

text \<open>
  C1. In the state where P1 owns A and waits on B while P2 owns B and waits on A,
  \<open>detectar_deadlock\<close> reports exactly one cycle, the cycle contains both P1 and P2, and
  the set of deadlocked processes is {P1, P2}.
\<close>

theorem detectar_deadlock_reports_cycle:
  "(\<exists>c. cycles (detectar_deadlock cenario_deadlock) = [c] \<and> ''P1'' \<in> set c \<and> ''P2'' \<in> set c)
   \<and> set (in_deadlock (detectar_deadlock cenario_deadlock)) = {''P1'', ''P2''}"
  by (simp add: cycles_cenario_deadlock in_deadlock_cenario_deadlock)

text \<open>
  C2. In the state where P1 owns A and waits on nothing while P2 owns B and waits on A,
  \<open>detectar_deadlock\<close> reports no cycle and no deadlocked process, although P2 is
  blocked: it waits on A, suspended on the condition of A.
\<close>

theorem detectar_deadlock_no_false_positive:
  "cycles (detectar_deadlock cenario_bloqueio) = []
   \<and> set (in_deadlock (detectar_deadlock cenario_bloqueio)) = {}
   \<and> recurso_aguardando (processos cenario_bloqueio ! 1) = Some 0
   \<and> ctl (processos cenario_bloqueio ! 1) = Dormindo 0"
  by (simp add: cycles_cenario_bloqueio in_deadlock_cenario_bloqueio)
     (simp add: cenario_bloqueio_def mk_processo_def)

section \<open>Acquisition and release\<close>

text \<open>
  C3. In every reachable state the owner field of a resource points to a process if and
  only if the resource is in the list of resources held by that process; an owner is a
  process of the system, a held resource is a resource of the system, and no resource is
  held by two processes, so a resource has at most one owner.
\<close>

theorem bidirectional_consistency:
  assumes "reachable s"
  shows "(\<forall>r < length (recursos s). \<forall>p < length (processos s).
            dono (recursos s ! r) = Some p \<longleftrightarrow> r \<in> set (recursos_posse (processos s ! p)))
       \<and> (\<forall>r < length (recursos s). \<forall>p. dono (recursos s ! r) = Some p \<longrightarrow> p < length (processos s))
       \<and> (\<forall>p < length (processos s). \<forall>r \<in> set (recursos_posse (processos s ! p)).
            r < length (recursos s))
       \<and> (\<forall>p < length (processos s). \<forall>q < length (processos s). \<forall>r.
            r \<in> set (recursos_posse (processos s ! p)) \<and>
            r \<in> set (recursos_posse (processos s ! q)) \<longrightarrow> p = q)"
proof (intro conjI allI impI ballI)
  from reachable_invariant [OF assms] have c: "consistent s" by (simp add: invariant_def)
  {
    fix r p assume r: "r < length (recursos s)" and p: "p < length (processos s)"
    show "dono (recursos s ! r) = Some p \<longleftrightarrow> r \<in> set (recursos_posse (processos s ! p))"
    proof
      assume "dono (recursos s ! r) = Some p"
      from consistent_owner [OF c r this]
      show "r \<in> set (recursos_posse (processos s ! p))" by simp
    next
      assume "r \<in> set (recursos_posse (processos s ! p))"
      from consistent_held [OF c p this] show "dono (recursos s ! r) = Some p" by simp
    qed
  next
    fix r p assume "r < length (recursos s)" "dono (recursos s ! r) = Some p"
    from consistent_owner [OF c this] show "p < length (processos s)" by simp
  next
    fix p r assume "p < length (processos s)" "r \<in> set (recursos_posse (processos s ! p))"
    from consistent_held [OF c this] show "r < length (recursos s)" by simp
  next
    fix p q r assume p: "p < length (processos s)" and q: "q < length (processos s)"
      and h: "r \<in> set (recursos_posse (processos s ! p)) \<and>
              r \<in> set (recursos_posse (processos s ! q))"
    from h have hp: "r \<in> set (recursos_posse (processos s ! p))"
      and hq: "r \<in> set (recursos_posse (processos s ! q))" by simp_all
    from consistent_held [OF c p hp] consistent_held [OF c q hq]
    show "p = q" by simp
  }
qed

theorem bidirectional_consistency_witness:
  "reachable cenario_deadlock
   \<and> dono (recursos cenario_deadlock ! 1) = Some 1
   \<and> 1 \<in> set (recursos_posse (processos cenario_deadlock ! 1))"
proof -
  note r = reachable_cenario_deadlock
  have len: "1 < length (recursos cenario_deadlock)" "1 < length (processos cenario_deadlock)"
    by (simp_all add: cenario_deadlock_def)
  have d: "dono (recursos cenario_deadlock ! 1) = Some 1"
    by (simp add: cenario_deadlock_def mk_recurso_def)
  from bidirectional_consistency [OF r]
  have "\<forall>r < length (recursos cenario_deadlock). \<forall>p < length (processos cenario_deadlock).
            dono (recursos cenario_deadlock ! r) = Some p
              \<longleftrightarrow> r \<in> set (recursos_posse (processos cenario_deadlock ! p))"
    by (rule conjunct1)
  with len have "dono (recursos cenario_deadlock ! 1) = Some 1
      \<longleftrightarrow> 1 \<in> set (recursos_posse (processos cenario_deadlock ! 1))"
    by blast
  with d have "1 \<in> set (recursos_posse (processos cenario_deadlock ! 1))" by simp
  with r d show ?thesis by simp
qed

text \<open>
  C4. When \<open>solicitar_recurso\<close> finds the resource without owner, the thread does
  not wait: the resource gets the process as its owner, the process waits for nothing,
  and the resource is appended to the resources it holds. The thread leaves
  \<open>solicitar_recurso\<close> without waiting exactly when the resource has no owner;
  otherwise it suspends itself on the condition of the resource.
\<close>

theorem acquire_free_resource:
  assumes "p < length (processos s)" and "r < length (recursos s)"
  shows "(dono (recursos s ! r) = None \<longrightarrow>
            dono (recursos (solicitar_recurso p r s) ! r) = Some p \<and>
            recurso_aguardando (processos (solicitar_recurso p r s) ! p) = None \<and>
            recursos_posse (processos (solicitar_recurso p r s) ! p)
              = recursos_posse (processos s ! p) @ [r] \<and>
            ctl (processos (solicitar_recurso p r s) ! p) = Ocioso)
       \<and> (ctl (processos (solicitar_recurso p r s) ! p) = Ocioso \<longleftrightarrow> dono (recursos s ! r) = None)
       \<and> (ctl (processos (solicitar_recurso p r s) ! p) = Dormindo r
            \<longleftrightarrow> dono (recursos s ! r) \<noteq> None)"
proof (cases "dono (recursos s ! r) = None")
  case True
  from solicitar_free_frame(4-7) [OF True, where p = p] assms True show ?thesis by simp
next
  case False
  from solicitar_blocked_frame(7) [OF False, where p = p] assms False show ?thesis by simp
qed

theorem acquire_free_resource_witness:
  "0 < length (processos exemplo_inicio) \<and> 0 < length (recursos exemplo_inicio)
   \<and> dono (recursos exemplo_inicio ! 0) = None
   \<and> dono (recursos (solicitar_recurso 0 0 exemplo_inicio) ! 0) = Some 0
   \<and> recursos_posse (processos (solicitar_recurso 0 0 exemplo_inicio) ! 0) = [0]"
proof -
  have a: "0 < length (processos exemplo_inicio)" "0 < length (recursos exemplo_inicio)"
    "dono (recursos exemplo_inicio ! 0) = None"
    "recursos_posse (processos exemplo_inicio ! 0) = []"
    by code_simp+
  from acquire_free_resource [OF a(1) a(2)] a show ?thesis by simp
qed

text \<open>
  C5. In a reachable state, the release of a resource by a process that holds it clears
  the owner of the resource, removes the resource from the resources held by the process,
  and wakes every thread suspended on the condition of the resource: each of them is back
  at the head of the loop of \<open>solicitar_recurso\<close>, and none stays suspended on it.
\<close>

theorem release_wakes_all_waiters:
  assumes "reachable s" and "p < length (processos s)"
    and "r \<in> set (recursos_posse (processos s ! p))"
  shows "dono (recursos (liberar_recurso_agendado p r s) ! r) = None
       \<and> r \<notin> set (recursos_posse (processos (liberar_recurso_agendado p r s) ! p))
       \<and> recursos_posse (processos (liberar_recurso_agendado p r s) ! p)
           = remove1 r (recursos_posse (processos s ! p))
       \<and> condicao (recursos (liberar_recurso_agendado p r s) ! r) = []
       \<and> (\<forall>q < length (processos s). ctl (processos s ! q) = Dormindo r \<longrightarrow>
            ctl (processos (liberar_recurso_agendado p r s) ! q) = Solicitando r)
       \<and> (\<forall>q < length (processos s).
            ctl (processos (liberar_recurso_agendado p r s) ! q) \<noteq> Dormindo r)"
proof -
  let ?s = "liberar_recurso_agendado p r s"
  note f = liberar_held_frame [OF assms(3)]
  from reachable_invariant [OF assms(1)] have c: "consistent s" by (simp add: invariant_def)
  note w = reachable_waiters_ok [OF assms(1)]
  from consistent_held [OF c assms(2,3)] have r: "r < length (recursos s)" by simp
  from consistent_distinct [OF c assms(2)]
  have dist: "distinct (recursos_posse (processos s ! p))" .
  have 1: "dono (recursos ?s ! r) = None" using r by (simp add: f)
  have 2: "recursos_posse (processos ?s ! p) = remove1 r (recursos_posse (processos s ! p))"
    using assms(2) by (simp add: f)
  have 3: "r \<notin> set (recursos_posse (processos ?s ! p))"
    unfolding 2 using dist by simp
  have 4: "condicao (recursos ?s ! r) = []" using r by (simp add: f)
  have 5: "ctl (processos ?s ! q) = Solicitando r"
    if "q < length (processos s)" "ctl (processos s ! q) = Dormindo r" for q
    using waiters_ok_ctl [OF w that] that(1) by (simp add: f)
  have 6: "ctl (processos ?s ! q) \<noteq> Dormindo r" if q: "q < length (processos s)" for q
  proof (cases "q \<in> set (condicao (recursos s ! r))")
    case True
    with q show ?thesis by (simp add: f)
  next
    case False
    with waiters_ok_ctl [OF w q, of r] have "ctl (processos s ! q) \<noteq> Dormindo r" by blast
    with q False show ?thesis by (simp add: f)
  qed
  from 1 2 3 4 5 6 show ?thesis by blast
qed

theorem release_wakes_all_waiters_witness:
  "reachable cenario_bloqueio \<and> 0 < length (processos cenario_bloqueio)
   \<and> 0 \<in> set (recursos_posse (processos cenario_bloqueio ! 0))
   \<and> ctl (processos cenario_bloqueio ! 1) = Dormindo 0
   \<and> dono (recursos (liberar_recurso_agendado 0 0 cenario_bloqueio) ! 0) = None
   \<and> ctl (processos (liberar_recurso_agendado 0 0 cenario_bloqueio) ! 1) = Solicitando 0"
proof -
  have a: "0 < length (processos cenario_bloqueio)"
    "0 \<in> set (recursos_posse (processos cenario_bloqueio ! 0))"
    and b: "1 < length (processos cenario_bloqueio)"
    "ctl (processos cenario_bloqueio ! 1) = Dormindo 0"
    by (simp_all add: cenario_bloqueio_def mk_processo_def)
  from release_wakes_all_waiters [OF reachable_cenario_bloqueio a]
  have "dono (recursos (liberar_recurso_agendado 0 0 cenario_bloqueio) ! 0) = None"
    and "\<forall>q < length (processos cenario_bloqueio).
           ctl (processos cenario_bloqueio ! q) = Dormindo 0 \<longrightarrow>
           ctl (processos (liberar_recurso_agendado 0 0 cenario_bloqueio) ! q) = Solicitando 0"
    by blast+
  with a b reachable_cenario_bloqueio show ?thesis by blast
qed

text \<open>
  C6. The list from which \<open>run\<close> picks the resource to request contains no resource
  held by the process, the pick is an element of that list, and when the process holds
  every resource the iteration changes nothing. In every reachable state a process
  neither is about to request nor waits for a resource that it holds.
\<close>

theorem no_self_wait_reachable:
  assumes "reachable s" and "p < length (processos s)"
  shows "(\<forall>r \<in> set (disponiveis_para_pedir p s). r \<notin> set (recursos_posse (processos s ! p)))
       \<and> (disponiveis_para_pedir p s \<noteq> [] \<longrightarrow>
            (\<exists>r \<in> set (disponiveis_para_pedir p s).
               ctl (processos (run_iteration p k s) ! p) = Solicitando r))
       \<and> ((\<forall>r < length (recursos s). r \<in> set (recursos_posse (processos s ! p))) \<longrightarrow>
            run_iteration p k s = s)
       \<and> (\<forall>r. ctl (processos s ! p) = Solicitando r \<longrightarrow>
            r \<notin> set (recursos_posse (processos s ! p)))
       \<and> (\<forall>r. recurso_aguardando (processos s ! p) = Some r \<longrightarrow>
            r \<notin> set (recursos_posse (processos s ! p)))"
proof -
  from reachable_invariant [OF assms(1)] have w: "no_self_wait s" by (simp add: invariant_def)
  let ?d = "disponiveis_para_pedir p s"
  have 1: "\<forall>r \<in> set ?d. r \<notin> set (recursos_posse (processos s ! p))"
    by (simp add: disponiveis_iff)
  have 2: "?d \<noteq> [] \<longrightarrow> (\<exists>r \<in> set ?d. ctl (processos (run_iteration p k s) ! p) = Solicitando r)"
  proof
    assume ne: "?d \<noteq> []"
    then have "ctl (processos (run_iteration p k s) ! p) = Solicitando (?d ! (k mod length ?d))"
      using assms(2) by (simp add: run_iteration_def Let_def)
    with choice_in_set [OF ne, of k]
    show "\<exists>r \<in> set ?d. ctl (processos (run_iteration p k s) ! p) = Solicitando r" by blast
  qed
  have 3: "(\<forall>r < length (recursos s). r \<in> set (recursos_posse (processos s ! p))) \<longrightarrow>
      run_iteration p k s = s"
  proof
    assume "\<forall>r < length (recursos s). r \<in> set (recursos_posse (processos s ! p))"
    then have "?d = []" by (simp add: disponiveis_para_pedir_def)
    then show "run_iteration p k s = s" by (simp add: run_iteration_def)
  qed
  from 1 2 3 no_self_wait_ctl [OF w assms(2)] no_self_wait_aguardando [OF w assms(2)]
  show ?thesis by blast
qed

theorem no_self_wait_reachable_witness:
  "reachable cenario_bloqueio \<and> 1 < length (processos cenario_bloqueio)
   \<and> recurso_aguardando (processos cenario_bloqueio ! 1) = Some 0
   \<and> 0 \<notin> set (recursos_posse (processos cenario_bloqueio ! 1))"
proof -
  have a: "1 < length (processos cenario_bloqueio)"
    and b: "recurso_aguardando (processos cenario_bloqueio ! 1) = Some 0"
    by (simp_all add: cenario_bloqueio_def mk_processo_def)
  from no_self_wait_reachable [OF reachable_cenario_bloqueio a, of 0] b
  have "0 \<notin> set (recursos_posse (processos cenario_bloqueio ! 1))" by blast
  with a b reachable_cenario_bloqueio show ?thesis by blast
qed

text \<open>
  C10. \<open>liberar_recurso_agendado\<close> for a resource that the process does not hold leaves
  the whole state as it is: no owner, no list of held resources, no awaited resource
  changes, and no thread is woken.
\<close>

theorem release_by_non_holder_is_noop:
  "r \<notin> set (recursos_posse (processos s ! p)) \<Longrightarrow> liberar_recurso_agendado p r s = s"
  by (simp add: liberar_recurso_agendado_def)

theorem release_by_non_holder_is_noop_witness:
  "1 \<notin> set (recursos_posse (processos cenario_bloqueio ! 0))
   \<and> liberar_recurso_agendado 0 1 cenario_bloqueio = cenario_bloqueio"
proof -
  have a: "1 \<notin> set (recursos_posse (processos cenario_bloqueio ! 0))"
    by (simp add: cenario_bloqueio_def mk_processo_def)
  from release_by_non_holder_is_noop [OF a] a show ?thesis by simp
qed

section \<open>Configuration\<close>

lemma config_bounded_App: "config_bounded App"
  by (simp add: config_bounded_def App_def)

lemma config_bounded_add_recurso: "config_bounded s \<Longrightarrow> config_bounded (snd (add_recurso n s))"
  by (auto simp: config_bounded_def add_recurso_def)

lemma config_bounded_add_processo_config:
  "config_bounded s \<Longrightarrow> config_bounded (snd (add_processo_config ts tu s))"
  by (auto simp: config_bounded_def add_processo_config_def split: option.splits)

lemma config_bounded_start_simulation:
  "config_bounded s \<Longrightarrow> config_bounded (snd (start_simulation dt s))"
  by (auto simp: config_bounded_def start_simulation_def Let_def split: option.splits prod.splits)

lemma config_bounded_run_iteration:
  "config_bounded s \<Longrightarrow> config_bounded (run_iteration p k s)"
  by (simp add: config_bounded_def run_iteration_def Let_def)

lemma config_bounded_solicitar_recurso:
  "config_bounded s \<Longrightarrow> config_bounded (solicitar_recurso p r s)"
  by (simp add: config_bounded_def solicitar_recurso_def Let_def)

lemma config_bounded_liberar_recurso_agendado:
  "config_bounded s \<Longrightarrow> config_bounded (liberar_recurso_agendado p r (s\<lparr>timers := ts\<rparr>))"
  by (simp add: config_bounded_def liberar_recurso_agendado_def Let_def)

lemma reachable_config_bounded: "reachable s \<Longrightarrow> config_bounded s"
proof (induction rule: reachable.induct)
  case reach_App
  show ?case by (rule config_bounded_App)
next
  case (reach_add_recurso s n)
  then show ?case by (simp add: config_bounded_add_recurso)
next
  case (reach_add_processo_config s ts tu)
  then show ?case by (simp add: config_bounded_add_processo_config)
next
  case (reach_start_simulation s dt)
  then show ?case by (simp add: config_bounded_start_simulation)
next
  case (reach_run s p k)
  then show ?case by (simp add: config_bounded_run_iteration)
next
  case (reach_solicitar s p r)
  then show ?case by (simp add: config_bounded_solicitar_recurso)
next
  case (reach_liberar s p r)
  then show ?case by (simp add: config_bounded_liberar_recurso_agendado)
qed

lemma reachable_fold_add_recurso:
  "reachable s \<Longrightarrow> reachable (fold (\<lambda>n s. snd (add_recurso m s)) ns s)"
  by (induction ns arbitrary: s) (auto intro: reach_add_recurso)

lemma reachable_fold_add_processo_config:
  "reachable s \<Longrightarrow> reachable (fold (\<lambda>n s. snd (add_processo_config ts tu s)) ns s)"
  by (induction ns arbitrary: s) (auto intro: reach_add_processo_config)

lemma reachable_configuracao_cheia: "reachable configuracao_cheia"
  unfolding configuracao_cheia_def
  by (intro reachable_fold_add_processo_config reachable_fold_add_recurso reach_App)

text \<open>
  C8, as stated, fails: with ten resources and ten process configurations the eleventh
  attempt is answered by \<open>messagebox.showwarning\<close>, a warning and not an error.
\<close>

theorem limit_is_a_warning:
  "length (recursos configuracao_cheia) = 10
   \<and> length (temp_process_configs configuracao_cheia) = 10
   \<and> fst (add_recurso ''K'' configuracao_cheia) = Showwarning Maximo_recursos_atingido
   \<and> fst (add_recurso ''K'' configuracao_cheia) \<noteq> Showerror Maximo_recursos_atingido
   \<and> fst (add_processo_config (Some (Fin 1)) (Some (Fin 1)) configuracao_cheia)
        = Showwarning Maximo_processos_atingido
   \<and> fst (add_processo_config (Some (Fin 1)) (Some (Fin 1)) configuracao_cheia)
        \<noteq> Showerror Maximo_processos_atingido"
proof -
  have a: "length (recursos configuracao_cheia) = 10"
    "length (temp_process_configs configuracao_cheia) = 10"
    by code_simp+
  then show ?thesis
    by (simp add: add_recurso_def add_processo_config_def MAX_RECURSOS_def MAX_PROCESSOS_def)
qed

text \<open>
  C8, amended. With ten resources configured \<open>add_recurso\<close> shows the warning of the
  limit and changes nothing, and so does \<open>add_processo_config\<close> with ten process
  configurations; in every reachable state both lists have at most ten entries. The
  refused attempt leaves the state as it is, so it starts no thread.
\<close>

theorem capacity_bound:
  "(MAX_RECURSOS \<le> length (recursos s) \<longrightarrow>
      add_recurso n s = (Showwarning Maximo_recursos_atingido, s))
   \<and> (MAX_PROCESSOS \<le> length (temp_process_configs s) \<longrightarrow>
      add_processo_config ts tu s = (Showwarning Maximo_processos_atingido, s))
   \<and> (reachable s \<longrightarrow> length (recursos s) \<le> 10 \<and> length (temp_process_configs s) \<le> 10)
   \<and> MAX_RECURSOS = 10 \<and> MAX_PROCESSOS = 10"
proof (intro conjI impI)
  assume "MAX_RECURSOS \<le> length (recursos s)"
  then show "add_recurso n s = (Showwarning Maximo_recursos_atingido, s)"
    by (simp add: add_recurso_def)
next
  assume "MAX_PROCESSOS \<le> length (temp_process_configs s)"
  then show "add_processo_config ts tu s = (Showwarning Maximo_processos_atingido, s)"
    by (simp add: add_processo_config_def)
next
  assume "reachable s"
  from reachable_config_bounded [OF this]
  show "length (recursos s) \<le> 10" "length (temp_process_configs s) \<le> 10"
    by (simp_all add: config_bounded_def MAX_RECURSOS_def MAX_PROCESSOS_def)
qed (simp_all add: MAX_RECURSOS_def MAX_PROCESSOS_def)

theorem capacity_bound_witness:
  "reachable configuracao_cheia
   \<and> length (recursos configuracao_cheia) = 10
   \<and> length (temp_process_configs configuracao_cheia) = 10
   \<and> add_recurso ''K'' configuracao_cheia
        = (Showwarning Maximo_recursos_atingido, configuracao_cheia)
   \<and> add_processo_config (Some (Fin 1)) (Some (Fin 1)) configuracao_cheia
        = (Showwarning Maximo_processos_atingido, configuracao_cheia)
   \<and> processos configuracao_cheia = [] \<and> so_thread configuracao_cheia = None"
proof -
  have a: "length (recursos configuracao_cheia) = 10"
    "length (temp_process_configs configuracao_cheia) = 10"
    "processos configuracao_cheia = []" "so_thread configuracao_cheia = None"
    by code_simp+
  from capacity_bound [of configuracao_cheia "''K''" "Some (Fin 1)" "Some (Fin 1)"] a
    reachable_configuracao_cheia
  show ?thesis by simp
qed

text \<open>
  C7, as stated, fails: process configurations with request interval 0 and with hold
  duration -1 are accepted without any dialog, and \<open>start_simulation\<close> then starts the
  threads of both processes and the detector.
\<close>

theorem nonpositive_times_accepted:
  "c_ts (temp_process_configs config_nao_positiva ! 0) = Fin 0
   \<and> c_tu (temp_process_configs config_nao_positiva ! 1) = Fin (- 1)
   \<and> recursos config_nao_positiva \<noteq> [] \<and> temp_process_configs config_nao_positiva \<noteq> []
   \<and> fst (add_processo_config (Some (Fin 0)) (Some (Fin 50)) (snd (add_recurso ''A'' App)))
        = Retorno
   \<and> fst (add_processo_config (Some (Fin (1 / 2))) (Some (Fin (- 1)))
        (snd (add_processo_config (Some (Fin 0)) (Some (Fin 50)) (snd (add_recurso ''A'' App)))))
        = Retorno
   \<and> fst (start_simulation (Some (Fin 1)) config_nao_positiva) = Retorno
   \<and> started (processos (snd (start_simulation (Some (Fin 1)) config_nao_positiva)) ! 0)
   \<and> started (processos (snd (start_simulation (Some (Fin 1)) config_nao_positiva)) ! 1)
   \<and> so_thread (snd (start_simulation (Some (Fin 1)) config_nao_positiva))
        = Some \<lparr>intervalo = Fin 1, so_started = True\<rparr>"
  by code_simp

text \<open>
  C7, amended. With an empty list of resources or an empty list of process configurations
  \<open>start_simulation\<close> shows an error and changes nothing, whatever the detector interval
  entered: the error comes before any thread is created or started, and the simulation
  does not start.
\<close>

theorem configuration_rejected:
  "recursos s = [] \<or> temp_process_configs s = [] \<Longrightarrow>
   start_simulation dt s = (Showerror Configure_recursos_e_processos, s)"
  by (simp add: start_simulation_def)

theorem configuration_rejected_witness:
  "recursos App = []
   \<and> start_simulation (Some (Fin 1)) App = (Showerror Configure_recursos_e_processos, App)
   \<and> recursos (snd (add_recurso ''A'' App)) \<noteq> []
   \<and> temp_process_configs (snd (add_recurso ''A'' App)) = []
   \<and> start_simulation (Some (Fin 1)) (snd (add_recurso ''A'' App))
        = (Showerror Configure_recursos_e_processos, snd (add_recurso ''A'' App))
   \<and> processos (snd (start_simulation (Some (Fin 1)) (snd (add_recurso ''A'' App)))) = []
   \<and> so_thread (snd (start_simulation (Some (Fin 1)) (snd (add_recurso ''A'' App)))) = None"
proof -
  have a: "recursos App = []" by (simp add: App_def)
  have b: "temp_process_configs (snd (add_recurso ''A'' App)) = []"
    "recursos (snd (add_recurso ''A'' App)) \<noteq> []"
    "processos (snd (add_recurso ''A'' App)) = []"
    "so_thread (snd (add_recurso ''A'' App)) = None"
    by (simp_all add: add_recurso_def App_def MAX_RECURSOS_def)
  from configuration_rejected [of App "Some (Fin 1)"] a
  have 1: "start_simulation (Some (Fin 1)) App = (Showerror Configure_recursos_e_processos, App)"
    by simp
  from configuration_rejected [of "snd (add_recurso ''A'' App)" "Some (Fin 1)"] b(1)
  have 2: "start_simulation (Some (Fin 1)) (snd (add_recurso ''A'' App))
      = (Showerror Configure_recursos_e_processos, snd (add_recurso ''A'' App))"
    by simp
  from a b 1 2 show ?thesis by simp
qed

section \<open>What the detector depends on\<close>

lemma add_process_nodes_view:
  "add_process_nodes s G =
     fold (\<lambda>i. add_node (CHR ''P'' # str_int i) ''processo'') (map p_id (processos s)) G"
  by (simp add: add_process_nodes_def fold_map comp_def nome_processo_def)

lemma add_resource_nodes_view:
  "add_resource_nodes s G =
     fold (\<lambda>i. add_node (CHR ''R'' # str_int i) ''recurso'') (map r_id (recursos s)) G"
  by (simp add: add_resource_nodes_def fold_map comp_def nome_recurso_def)

lemma add_owner_edges_view:
  assumes "refs_ok s"
  shows "add_owner_edges s G =
     fold (\<lambda>(i, d) G. case d of None \<Rightarrow> G
              | Some d \<Rightarrow> add_edge (CHR ''R'' # str_int i)
                                   (CHR ''P'' # str_int (map p_id (processos s) ! d)) G)
          (zip (map r_id (recursos s)) (map dono (recursos s))) G"
proof -
  have z: "zip (map r_id (recursos s)) (map dono (recursos s))
      = map (\<lambda>r. (r_id r, dono r)) (recursos s)"
    by (simp add: zip_map_map zip_same_conv_map)
  have "fold (\<lambda>r G. case dono r of None \<Rightarrow> G
                 | Some d \<Rightarrow> add_edge (nome_recurso r) (nome_processo (processos s ! d)) G)
          (recursos s) G
      = fold (\<lambda>r G. case dono r of None \<Rightarrow> G
                 | Some d \<Rightarrow> add_edge (CHR ''R'' # str_int (r_id r))
                                   (CHR ''P'' # str_int (map p_id (processos s) ! d)) G)
          (recursos s) G"
  proof (rule fold_cong [OF refl refl])
    fix r assume r: "r \<in> set (recursos s)"
    show "(\<lambda>G. case dono r of None \<Rightarrow> G
                 | Some d \<Rightarrow> add_edge (nome_recurso r) (nome_processo (processos s ! d)) G)
        = (\<lambda>G. case dono r of None \<Rightarrow> G
                 | Some d \<Rightarrow> add_edge (CHR ''R'' # str_int (r_id r))
                                   (CHR ''P'' # str_int (map p_id (processos s) ! d)) G)"
    proof (cases "dono r")
      case None
      then show ?thesis by simp
    next
      case (Some d)
      with assms r have "d < length (processos s)" unfolding refs_ok_def by blast
      with Some show ?thesis by (simp add: nome_recurso_def nome_processo_def)
    qed
  qed
  then show ?thesis
    unfolding add_owner_edges_def z by (simp add: fold_map comp_def)
qed

lemma add_wait_edges_view:
  assumes "refs_ok s"
  shows "add_wait_edges s G =
     fold (\<lambda>(i, w) G. case w of None \<Rightarrow> G
              | Some w \<Rightarrow> add_edge (CHR ''P'' # str_int i)
                                   (CHR ''R'' # str_int (map r_id (recursos s) ! w)) G)
          (zip (map p_id (processos s)) (map recurso_aguardando (processos s))) G"
proof -
  have z: "zip (map p_id (processos s)) (map recurso_aguardando (processos s))
      = map (\<lambda>p. (p_id p, recurso_aguardando p)) (processos s)"
    by (simp add: zip_map_map zip_same_conv_map)
  have "fold (\<lambda>p G. case recurso_aguardando p of None \<Rightarrow> G
                 | Some w \<Rightarrow> add_edge (nome_processo p) (nome_recurso (recursos s ! w)) G)
          (processos s) G
      = fold (\<lambda>p G. case recurso_aguardando p of None \<Rightarrow> G
                 | Some w \<Rightarrow> add_edge (CHR ''P'' # str_int (p_id p))
                                   (CHR ''R'' # str_int (map r_id (recursos s) ! w)) G)
          (processos s) G"
  proof (rule fold_cong [OF refl refl])
    fix p assume p: "p \<in> set (processos s)"
    show "(\<lambda>G. case recurso_aguardando p of None \<Rightarrow> G
                 | Some w \<Rightarrow> add_edge (nome_processo p) (nome_recurso (recursos s ! w)) G)
        = (\<lambda>G. case recurso_aguardando p of None \<Rightarrow> G
                 | Some w \<Rightarrow> add_edge (CHR ''P'' # str_int (p_id p))
                                   (CHR ''R'' # str_int (map r_id (recursos s) ! w)) G)"
    proof (cases "recurso_aguardando p")
      case None
      then show ?thesis by simp
    next
      case (Some w)
      with assms p have "w < length (recursos s)" unfolding refs_ok_def by blast
      with Some show ?thesis by (simp add: nome_recurso_def nome_processo_def)
    qed
  qed
  then show ?thesis
    unfolding add_wait_edges_def z by (simp add: fold_map comp_def)
qed

lemma build_graph_allocation:
  assumes "allocation s = allocation s'" and "refs_ok s" and "refs_ok s'"
  shows "build_graph s = build_graph s'"
proof -
  from assms(1) have e: "map r_id (recursos s) = map r_id (recursos s')"
    "map dono (recursos s) = map dono (recursos s')"
    "map p_id (processos s) = map p_id (processos s')"
    "map recurso_aguardando (processos s) = map recurso_aguardando (processos s')"
    by (simp_all add: allocation_def)
  show ?thesis
    unfolding build_graph_def add_wait_edges_view [OF assms(2)] add_wait_edges_view [OF assms(3)]
      add_owner_edges_view [OF assms(2)] add_owner_edges_view [OF assms(3)]
      add_resource_nodes_view add_process_nodes_view e ..
qed

lemma refs_ok_allocation:
  assumes "allocation s = allocation s'" and "refs_ok s"
  shows "refs_ok s'"
proof -
  from assms(1) have e: "map dono (recursos s) = map dono (recursos s')"
    "map recurso_aguardando (processos s) = map recurso_aguardando (processos s')"
    by (simp_all add: allocation_def)
  from e have l: "length (recursos s') = length (recursos s)"
    "length (processos s') = length (processos s)"
    using map_eq_imp_length_eq by metis+
  have d: "dono ` set (recursos s') = dono ` set (recursos s)"
    using e(1) by (metis set_map)
  have w: "recurso_aguardando ` set (processos s') = recurso_aguardando ` set (processos s)"
    using e(2) by (metis set_map)
  show ?thesis
    unfolding refs_ok_def l
  proof (intro conjI ballI allI impI)
    fix r x assume "r \<in> set (recursos s')" "dono r = Some x"
    then have "Some x \<in> dono ` set (recursos s')" by force
    with d obtain r0 where "r0 \<in> set (recursos s)" "dono r0 = Some x" by force
    with assms(2) show "x < length (processos s)" unfolding refs_ok_def by blast
  next
    fix p x assume "p \<in> set (processos s')" "recurso_aguardando p = Some x"
    then have "Some x \<in> recurso_aguardando ` set (processos s')" by force
    with w obtain p0 where "p0 \<in> set (processos s)" "recurso_aguardando p0 = Some x" by force
    with assms(2) show "x < length (recursos s)" unfolding refs_ok_def by blast
  qed
qed

lemma reachable_refs_ok: "reachable s \<Longrightarrow> refs_ok s"
proof -
  assume r: "reachable s"
  from reachable_invariant [OF r] have c: "consistent s" by (simp add: invariant_def)
  note w = reachable_waiters_ok [OF r]
  show "refs_ok s"
    unfolding refs_ok_def
  proof (intro conjI ballI allI impI)
    fix x d assume "x \<in> set (recursos s)" "dono x = Some d"
    then obtain i where "i < length (recursos s)" "dono (recursos s ! i) = Some d"
      by (auto simp: in_set_conv_nth)
    from consistent_owner [OF c this] show "d < length (processos s)" by simp
  next
    fix x d assume "x \<in> set (processos s)" "recurso_aguardando x = Some d"
    then obtain i where "i < length (processos s)" "recurso_aguardando (processos s ! i) = Some d"
      by (auto simp: in_set_conv_nth)
    from waiters_ok_aguardando [OF w this] show "d < length (recursos s)" .
  qed
qed

text \<open>
  C9. \<open>detectar_deadlock\<close> changes no state, and its result is determined by the
  identifiers, the owner fields and the awaited resources: run on a reachable state and
  again on a state in which these are the same, it yields the same graph, the same list of
  cycles and the same deadlocked processes. In particular two runs on the same state agree.
\<close>

theorem detectar_deadlock_idempotent:
  assumes "reachable s" and "allocation s' = allocation s"
  shows "graph (detectar_deadlock s') = graph (detectar_deadlock s)
       \<and> cycles (detectar_deadlock s') = cycles (detectar_deadlock s)
       \<and> in_deadlock (detectar_deadlock s') = in_deadlock (detectar_deadlock s)"
proof -
  note ok = reachable_refs_ok [OF assms(1)]
  from refs_ok_allocation [OF assms(2) [symmetric] ok] have ok': "refs_ok s'" .
  from build_graph_allocation [OF assms(2) ok' ok]
  show ?thesis by (simp add: detectar_deadlock_def Let_def)
qed

theorem detectar_deadlock_idempotent_witness:
  "reachable cenario_bloqueio
   \<and> allocation (cenario_bloqueio\<lparr>timers := []\<rparr>) = allocation cenario_bloqueio
   \<and> cycles (detectar_deadlock (cenario_bloqueio\<lparr>timers := []\<rparr>))
        = cycles (detectar_deadlock cenario_bloqueio)
   \<and> graph (detectar_deadlock (cenario_bloqueio\<lparr>timers := []\<rparr>))
        = graph (detectar_deadlock cenario_bloqueio)"
proof -
  have a: "allocation (cenario_bloqueio\<lparr>timers := []\<rparr>) = allocation cenario_bloqueio"
    by (simp add: allocation_def)
  from detectar_deadlock_idempotent [OF reachable_cenario_bloqueio a] a
    reachable_cenario_bloqueio
  show ?thesis by simp
qed

end
